theory Spec2Isabelle
  imports Main "HOL-Library.AList" "HOL-Library.Multiset"
begin

section \<open>Task model (src/tasks/test\_task\_model.py)\<close>

datatype TestType = UNIT | INTEGRATION | E2E | EXPLORATORY | PERFORMANCE | SECURITY

datatype TaskStatus = PENDING | IN_PROGRESS | BLOCKED | DONE

datatype CoverageStatus = NOT_STARTED | COVERAGE_IN_PROGRESS | COMPLETE | MISSING

text \<open>
  The dataclass field \<open>coverage_status\<close> is annotated \<open>CoverageStatus\<close>, but
  \<open>CoverageAnalyzer._is_missing\<close> also accepts a plain string and anything else.
\<close>

datatype coverage_value = CovEnum CoverageStatus | CovStr string | CovOther

record TestTask =
  task_id :: string
  description :: string
  test_type :: TestType
  dependencies :: "string list"
  status :: TaskStatus
  owner :: "string option"
  coverage_status :: coverage_value

text \<open>
  The exceptions of the modelled code: the \<open>ValueError\<close> of \<open>TaskSorter.sort\<close> and
  \<open>TestPlanGenerator.generate_plan\<close>, carrying the set \<open>missing\<close> that its message prints;
  the \<open>ValueError\<close> of \<open>TaskStatus(s)\<close> on a string that names no status; the
  \<open>KeyError\<close> of a dict subscript.
\<close>

datatype error = ValueError "string set" | InvalidStatus string | KeyError string

section \<open>Python string methods used by the code\<close>

text \<open>
  A character is a code point below 256 (Latin-1). On these, \<open>str.isspace\<close> holds for
  the code points listed in \<open>is_space\<close>, and \<open>str.lower\<close> moves \<open>A\<close>..\<open>Z\<close> and
  the accented capitals U+00C0..U+00DE (but U+00D7) down by 32 and leaves the rest.
\<close>

definition is_space :: "char \<Rightarrow> bool" where
  "is_space c = (of_char c \<in> {9, 10, 11, 12, 13, 28, 29, 30, 31, 32, 133, 160 :: nat})"

definition lower_char :: "char \<Rightarrow> char" where
  "lower_char c =
     (let n = of_char c :: nat
      in if (65 \<le> n \<and> n \<le> 90) \<or> (192 \<le> n \<and> n \<le> 214) \<or> (216 \<le> n \<and> n \<le> 222)
         then char_of (n + 32) else c)"

definition lower :: "string \<Rightarrow> string" where
  "lower s = map lower_char s"

definition strip :: "string \<Rightarrow> string" where
  "strip s = rev (dropWhile is_space (rev (dropWhile is_space s)))"

definition replace_space_underscore :: "string \<Rightarrow> string" where
  "replace_space_underscore s = map (\<lambda>c. if c = CHR '' '' then CHR ''_'' else c) s"

section \<open>Task store, status writes and the dependency gate\<close>

text \<open>
  \<open>TestTaskDAL.get_task\<close> selects the row of table \<open>test_tasks\<close> with the given
  primary key: the store is a map from ids to tasks. The world also records what the
  operations do besides returning: the calls of \<open>session.commit()\<close>, the calls made to
  \<open>NotificationService.notify_task_status_changed\<close>, and the warnings printed when such a
  call raises.
\<close>

record notification =
  n_task_id :: string
  n_task_description :: string
  n_old_status :: TaskStatus
  n_new_status :: TaskStatus
  n_task_owner :: "string option"
  n_changed_by :: "string option"

record world =
  store :: "string \<rightharpoonup> TestTask"
  commits :: nat
  notified :: "notification list"
  warnings :: "string list"

text \<open>The notification emitter: \<open>Some e\<close> when the call raises exception \<open>e\<close>.\<close>

type_synonym emitter = "notification \<Rightarrow> string option"

subsection \<open>src/tasks/task\_status.py\<close>

text \<open>\<open>new_status: TaskStatus | str\<close>, coerced by \<open>TaskStatus(new_status)\<close>.\<close>

datatype status_arg = AsEnum TaskStatus | AsStr string

definition TaskStatus_of_string :: "string \<Rightarrow> error + TaskStatus" where
  "TaskStatus_of_string s =
     (if s = ''pending'' then Inr PENDING
      else if s = ''in_progress'' then Inr IN_PROGRESS
      else if s = ''blocked'' then Inr BLOCKED
      else if s = ''done'' then Inr DONE
      else Inl (InvalidStatus s))"

fun to_TaskStatus :: "status_arg \<Rightarrow> error + TaskStatus" where
  "to_TaskStatus (AsEnum s) = Inr s"
| "to_TaskStatus (AsStr s) = TaskStatus_of_string s"

definition update_status ::
  "emitter \<Rightarrow> world \<Rightarrow> string \<Rightarrow> status_arg \<Rightarrow> string option \<Rightarrow> (error + bool) \<times> world" where
  "update_status emit w tid new_status changed_by =
     (case store w tid of
        None \<Rightarrow> (Inr False, w)
      | Some task \<Rightarrow>
          (case to_TaskStatus new_status of
             Inl e \<Rightarrow> (Inl e, w)
           | Inr s \<Rightarrow>
               let old_status = status task;
                   w1 = w\<lparr>store := (store w)(tid \<mapsto> task\<lparr>status := s\<rparr>),
                          commits := Suc (commits w)\<rparr>
               in if old_status \<noteq> s then
                    let n = \<lparr>n_task_id = tid, n_task_description = description task,
                              n_old_status = old_status, n_new_status = s,
                              n_task_owner = owner task, n_changed_by = changed_by\<rparr>;
                        w2 = w1\<lparr>notified := notified w1 @ [n]\<rparr>
                    in (case emit n of
                          None \<Rightarrow> (Inr True, w2)
                        | Some e \<Rightarrow> (Inr True, w2\<lparr>warnings := warnings w2 @ [e]\<rparr>))
                  else (Inr True, w1)))"

subsection \<open>src/tasks/task\_dependencies.py\<close>

text \<open>The \<open>for dep_id in deps\<close> loop of \<open>dependencies_complete\<close>.\<close>

fun deps_all_done :: "(string \<rightharpoonup> TestTask) \<Rightarrow> string list \<Rightarrow> bool" where
  "deps_all_done st [] = True"
| "deps_all_done st (dep_id # deps) =
     (case st dep_id of
        None \<Rightarrow> False
      | Some dep \<Rightarrow> if status dep \<noteq> DONE then False else deps_all_done st deps)"

text \<open>\<open>None\<close> is Python's \<open>None\<close>: the task itself is not in the store.\<close>

definition dependencies_complete :: "world \<Rightarrow> string \<Rightarrow> bool option" where
  "dependencies_complete w tid =
     (case store w tid of
        None \<Rightarrow> None
      | Some task \<Rightarrow>
          if dependencies task = [] then Some True
          else Some (deps_all_done (store w) (dependencies task)))"

definition mark_in_progress_if_ready :: "world \<Rightarrow> string \<Rightarrow> bool \<times> world" where
  "mark_in_progress_if_ready w tid =
     (case store w tid of
        None \<Rightarrow> (False, w)
      | Some task \<Rightarrow>
          if dependencies_complete w tid \<noteq> Some True then (False, w)
          else (True, w\<lparr>store := (store w)(tid \<mapsto> task\<lparr>status := IN_PROGRESS\<rparr>),
                        commits := Suc (commits w)\<rparr>))"

definition complete_task :: "world \<Rightarrow> string \<Rightarrow> bool \<times> world" where
  "complete_task w tid =
     (case store w tid of
        None \<Rightarrow> (False, w)
      | Some task \<Rightarrow>
          if dependencies_complete w tid \<noteq> Some True then (False, w)
          else (True, w\<lparr>store := (store w)(tid \<mapsto> task\<lparr>status := DONE\<rparr>),
                        commits := Suc (commits w)\<rparr>))"

subsection \<open>src/planner-main/tasks/dependency\_resolution.py\<close>

text \<open>\<open>bool(ready)\<close>: both \<open>None\<close> and \<open>False\<close> are false.\<close>

definition can_start :: "world \<Rightarrow> string \<Rightarrow> bool" where
  "can_start w tid = (dependencies_complete w tid = Some True)"

definition start_if_ready :: "emitter \<Rightarrow> world \<Rightarrow> string \<Rightarrow> (error + bool) \<times> world" where
  "start_if_ready emit w tid =
     (if \<not> can_start w tid then (Inr False, w)
      else update_status emit w tid (AsEnum IN_PROGRESS) None)"

definition complete_if_ready :: "emitter \<Rightarrow> world \<Rightarrow> string \<Rightarrow> (error + bool) \<times> world" where
  "complete_if_ready emit w tid =
     (if \<not> can_start w tid then (Inr False, w)
      else update_status emit w tid (AsEnum DONE) None)"

subsection \<open>Sequences of status-writing operations\<close>

datatype status_op =
    StartIfReady string
  | CompleteIfReady string
  | UpdateStatus string status_arg "string option"
  | MarkInProgressIfReady string
  | CompleteTask string

fun apply_op :: "emitter \<Rightarrow> world \<Rightarrow> status_op \<Rightarrow> world" where
  "apply_op emit w (StartIfReady tid) = snd (start_if_ready emit w tid)"
| "apply_op emit w (CompleteIfReady tid) = snd (complete_if_ready emit w tid)"
| "apply_op emit w (UpdateStatus tid s by) = snd (update_status emit w tid s by)"
| "apply_op emit w (MarkInProgressIfReady tid) = snd (mark_in_progress_if_ready w tid)"
| "apply_op emit w (CompleteTask tid) = snd (complete_task w tid)"

fun run_ops :: "emitter \<Rightarrow> world \<Rightarrow> status_op list \<Rightarrow> world" where
  "run_ops emit w [] = w"
| "run_ops emit w (op # ops) = run_ops emit (apply_op emit w op) ops"

fun gated :: "status_op \<Rightarrow> bool" where
  "gated (UpdateStatus tid s by) = False"
| "gated op = True"

section \<open>Topological sorter (src/tasks/task\_sorter.py)\<close>

text \<open>
  A Python dict whose iteration order is observed is an association list in insertion
  order with one entry per key: \<open>map_of\<close> reads it, \<open>AList.update\<close> writes it (the value
  of a present key is replaced in place, a new key is appended), and a subscript with a
  missing key raises \<open>KeyError\<close>. The \<open>defaultdict(list)\<close> named \<open>graph\<close> is only read
  with \<open>graph.get(k, [])\<close>: it is a function with value \<open>[]\<close> at missing keys.
\<close>

type_synonym 'v dict = "(string \<times> 'v) list"

text \<open>Line 26, \<open>{t.id: t for t in tasks}\<close>, and line 27, \<open>{tid: 0 for tid in tasks_by_id}\<close>.\<close>

definition tasks_by_id_of :: "TestTask list \<Rightarrow> TestTask dict" where
  "tasks_by_id_of tasks = foldl (\<lambda>d t. AList.update (task_id t) t d) [] tasks"

definition zero_indegree :: "TestTask dict \<Rightarrow> int dict" where
  "zero_indegree tasks_by_id = map (\<lambda>(tid, t). (tid, 0)) tasks_by_id"

text \<open>Lines 30-36: the loop over \<open>task.dependencies\<close> and the loop over the tasks around it.\<close>

fun add_dependencies ::
  "TestTask dict \<Rightarrow> string \<Rightarrow> string list \<Rightarrow> (string \<Rightarrow> string list) \<times> int dict
   \<Rightarrow> error + (string \<Rightarrow> string list) \<times> int dict" where
  "add_dependencies tasks_by_id tid [] (graph, indegree) = Inr (graph, indegree)"
| "add_dependencies tasks_by_id tid (dep_id # deps) (graph, indegree) =
     (if map_of tasks_by_id dep_id = None
      then add_dependencies tasks_by_id tid deps (graph, indegree)
      else (case map_of indegree tid of
              None \<Rightarrow> Inl (KeyError tid)
            | Some n \<Rightarrow>
                add_dependencies tasks_by_id tid deps
                  (graph(dep_id := graph dep_id @ [tid]), AList.update tid (n + 1) indegree)))"

fun build_graph ::
  "TestTask dict \<Rightarrow> TestTask list \<Rightarrow> (string \<Rightarrow> string list) \<times> int dict
   \<Rightarrow> error + (string \<Rightarrow> string list) \<times> int dict" where
  "build_graph tasks_by_id [] gi = Inr gi"
| "build_graph tasks_by_id (task # tasks) gi =
     (case add_dependencies tasks_by_id (task_id task) (dependencies task) gi of
        Inl e \<Rightarrow> Inl e
      | Inr gi' \<Rightarrow> build_graph tasks_by_id tasks gi')"

text \<open>Line 38: the tasks of in-degree zero, in the order of \<open>indegree.items()\<close>.\<close>

fun initial_ready_sort :: "TestTask dict \<Rightarrow> int dict \<Rightarrow> error + TestTask list" where
  "initial_ready_sort tasks_by_id [] = Inr []"
| "initial_ready_sort tasks_by_id ((tid, deg) # items) =
     (if deg = 0 then
        (case map_of tasks_by_id tid of
           None \<Rightarrow> Inl (KeyError tid)
         | Some t \<Rightarrow>
             (case initial_ready_sort tasks_by_id items of
                Inl e \<Rightarrow> Inl e
              | Inr ts \<Rightarrow> Inr (t # ts)))
      else initial_ready_sort tasks_by_id items)"

text \<open>Lines 44-47: the loop over \<open>graph.get(current.id, [])\<close>.\<close>

fun release_neighbors ::
  "TestTask dict \<Rightarrow> string list \<Rightarrow> int dict \<times> TestTask list \<Rightarrow> error + int dict \<times> TestTask list" where
  "release_neighbors tasks_by_id [] (indegree, ready) = Inr (indegree, ready)"
| "release_neighbors tasks_by_id (neighbor_id # ns) (indegree, ready) =
     (case map_of indegree neighbor_id of
        None \<Rightarrow> Inl (KeyError neighbor_id)
      | Some n \<Rightarrow>
          if n - 1 = 0 then
            (case map_of tasks_by_id neighbor_id of
               None \<Rightarrow> Inl (KeyError neighbor_id)
             | Some t \<Rightarrow>
                 release_neighbors tasks_by_id ns
                   (AList.update neighbor_id (n - 1) indegree, ready @ [t]))
          else release_neighbors tasks_by_id ns (AList.update neighbor_id (n - 1) indegree, ready))"

text \<open>
  Lines 41-47: the while loop. It terminates on every state: an iteration removes one task
  from \<open>ready\<close>, and each task it appends takes an entry of \<open>indegree\<close> from 1 to 0.
\<close>

function sort_loop ::
  "TestTask dict \<Rightarrow> (string \<Rightarrow> string list) \<Rightarrow> TestTask list \<Rightarrow> TestTask list \<Rightarrow> int dict
   \<Rightarrow> error + TestTask list" where
  "sort_loop tasks_by_id graph [] ordered indegree = Inr ordered"
| "sort_loop tasks_by_id graph (current # ready) ordered indegree =
     (case release_neighbors tasks_by_id (graph (task_id current)) (indegree, ready) of
        Inl e \<Rightarrow> Inl e
      | Inr (indegree', ready') \<Rightarrow>
          sort_loop tasks_by_id graph ready' (ordered @ [current]) indegree')"
  by pat_completeness auto
termination
proof (relation "measure (\<lambda>(tasks_by_id, graph, ready, ordered, indegree).
                   length ready + length (filter (\<lambda>p. 1 \<le> snd p) indegree))")
  show "wf (measure (\<lambda>(tasks_by_id, graph, ready, ordered, indegree).
                   length ready + length (filter (\<lambda>p. 1 \<le> snd p) indegree)))"
    by simp
next
  fix tasks_by_id :: "TestTask dict" and graph :: "string \<Rightarrow> string list"
    and current :: TestTask and ready ordered :: "TestTask list" and indegree :: "int dict"
    and x2 :: "int dict \<times> TestTask list" and indegree' :: "int dict" and ready' :: "TestTask list"
  assume rel: "release_neighbors tasks_by_id (graph (task_id current)) (indegree, ready) = Inr x2"
    and x2: "(indegree', ready') = x2"
  have upd_one: "Suc (length (filter (\<lambda>p. 1 \<le> snd p) (AList.update k 0 ind)))
                   = length (filter (\<lambda>p. 1 \<le> snd p) ind)"
    if "map_of ind k = Some (1::int)" for ind :: "int dict" and k
    using that by (induction ind) (auto split: if_splits)
  have upd_le: "length (filter (\<lambda>p. 1 \<le> snd p) (AList.update k (n - 1) ind))
                   \<le> length (filter (\<lambda>p. 1 \<le> snd p) ind)"
    if "map_of ind k = Some (n::int)" for ind :: "int dict" and k n
    using that by (induction ind) (auto split: if_splits)
  have "length rdy' + length (filter (\<lambda>p. 1 \<le> snd p) ind')
          \<le> length rdy + length (filter (\<lambda>p. 1 \<le> snd p) ind)"
    if "release_neighbors tasks_by_id ns (ind, rdy) = Inr (ind', rdy')" for ns ind rdy ind' rdy'
    using that
  proof (induction ns arbitrary: ind rdy)
    case Nil
    then show ?case by simp
  next
    case (Cons nb ns)
    from Cons.prems obtain n where n: "map_of ind nb = Some n"
      by (auto split: option.splits)
    show ?case
    proof (cases "n = 1")
      case True
      with Cons.prems n obtain t where
        "release_neighbors tasks_by_id ns (AList.update nb 0 ind, rdy @ [t]) = Inr (ind', rdy')"
        by (auto split: option.splits)
      from Cons.IH [OF this] upd_one [of ind nb] n True show ?thesis by simp
    next
      case False
      with Cons.prems n have
        "release_neighbors tasks_by_id ns (AList.update nb (n - 1) ind, rdy) = Inr (ind', rdy')"
        by simp
      from Cons.IH [OF this] upd_le [OF n] show ?thesis by simp
    qed
  qed
  from this [of "graph (task_id current)" indegree ready indegree' ready'] rel x2
  show "((tasks_by_id, graph, ready', ordered @ [current], indegree'),
         (tasks_by_id, graph, current # ready, ordered, indegree))
        \<in> measure (\<lambda>(tasks_by_id, graph, ready, ordered, indegree).
                   length ready + length (filter (\<lambda>p. 1 \<le> snd p) indegree))"
    by simp
qed

text \<open>\<open>TaskSorter.sort\<close>.\<close>

definition TaskSorter_sort :: "TestTask list \<Rightarrow> error + TestTask list" where
  "TaskSorter_sort tasks =
     (let tasks_by_id = tasks_by_id_of tasks in
      case build_graph tasks_by_id (map snd tasks_by_id) (\<lambda>k. [], zero_indegree tasks_by_id) of
        Inl e \<Rightarrow> Inl e
      | Inr (graph, indegree) \<Rightarrow>
          (case initial_ready_sort tasks_by_id indegree of
             Inl e \<Rightarrow> Inl e
           | Inr ready \<Rightarrow>
               (case sort_loop tasks_by_id graph ready [] indegree of
                  Inl e \<Rightarrow> Inl e
                | Inr ordered \<Rightarrow>
                    if length ordered \<noteq> length tasks_by_id
                    then Inl (ValueError (set (map fst tasks_by_id) - set (map task_id ordered)))
                    else Inr ordered)))"


section \<open>Plan generator (src/tasks/test\_plan\_generator.py)\<close>

text \<open>
  \<open>_priority\<close> reads the priority policy of the policy loader:
  \<open>PriorityPolicy.get_priority_for_test_type\<close> of src/planner-main/policies/policy\_models.py.
\<close>

fun TestType_value :: "TestType \<Rightarrow> string" where
  "TestType_value UNIT = ''unit''"
| "TestType_value INTEGRATION = ''integration''"
| "TestType_value E2E = ''e2e''"
| "TestType_value EXPLORATORY = ''exploratory''"
| "TestType_value PERFORMANCE = ''performance''"
| "TestType_value SECURITY = ''security''"

record PriorityPolicy =
  priorities :: "string \<rightharpoonup> int"
  default_priority :: int

definition get_priority_for_test_type :: "PriorityPolicy \<Rightarrow> TestType \<Rightarrow> int" where
  "get_priority_for_test_type policy tt =
     (case priorities policy (lower (TestType_value tt)) of
        None \<Rightarrow> default_priority policy
      | Some p \<Rightarrow> p)"

definition priority :: "PriorityPolicy \<Rightarrow> TestTask \<Rightarrow> int" where
  "priority policy task = get_priority_for_test_type policy (test_type task)"

text \<open>
  \<open>sorted(xs, key=key, reverse=True)\<close>: descending by key; Python keeps elements of equal
  key in their original order also with \<open>reverse=True\<close>.
\<close>

definition sorted_reverse :: "('a \<Rightarrow> int) \<Rightarrow> 'a list \<Rightarrow> 'a list" where
  "sorted_reverse key xs = sort_key (\<lambda>x. - key x) xs"

text \<open>Lines 60-66: the tasks of in-degree zero, in the order of \<open>tasks_by_id.items()\<close>.\<close>

fun initial_ready_plan :: "int dict \<Rightarrow> TestTask dict \<Rightarrow> error + TestTask list" where
  "initial_ready_plan indegree [] = Inr []"
| "initial_ready_plan indegree ((tid, task) # items) =
     (case map_of indegree tid of
        None \<Rightarrow> Inl (KeyError tid)
      | Some deg \<Rightarrow>
          (case initial_ready_plan indegree items of
             Inl e \<Rightarrow> Inl e
           | Inr ts \<Rightarrow> if deg = 0 then Inr (task # ts) else Inr ts))"

text \<open>Lines 69-80: the while loop, which sorts the ready queue again after every emission.\<close>

function plan_loop ::
  "PriorityPolicy \<Rightarrow> TestTask dict \<Rightarrow> (string \<Rightarrow> string list) \<Rightarrow> TestTask list \<Rightarrow> TestTask list
   \<Rightarrow> int dict \<Rightarrow> error + TestTask list" where
  "plan_loop policy tasks_by_id graph [] plan indegree = Inr plan"
| "plan_loop policy tasks_by_id graph (current # ready) plan indegree =
     (case release_neighbors tasks_by_id (graph (task_id current)) (indegree, ready) of
        Inl e \<Rightarrow> Inl e
      | Inr (indegree', ready') \<Rightarrow>
          plan_loop policy tasks_by_id graph
            (if ready' \<noteq> [] then sorted_reverse (priority policy) ready' else ready')
            (plan @ [current]) indegree')"
  by pat_completeness auto
termination
proof (relation "measure (\<lambda>(policy, tasks_by_id, graph, ready, plan, indegree).
                   length ready + length (filter (\<lambda>p. 1 \<le> snd p) indegree))")
  show "wf (measure (\<lambda>(policy, tasks_by_id, graph, ready, plan, indegree).
                   length ready + length (filter (\<lambda>p. 1 \<le> snd p) indegree)))"
    by simp
next
  fix policy :: PriorityPolicy and tasks_by_id :: "TestTask dict"
    and graph :: "string \<Rightarrow> string list"
    and current :: TestTask and ready plan :: "TestTask list" and indegree :: "int dict"
    and x2 :: "int dict \<times> TestTask list" and indegree' :: "int dict" and ready' :: "TestTask list"
  assume rel: "release_neighbors tasks_by_id (graph (task_id current)) (indegree, ready) = Inr x2"
    and x2: "(indegree', ready') = x2"
  have upd_one: "Suc (length (filter (\<lambda>p. 1 \<le> snd p) (AList.update k 0 ind)))
                   = length (filter (\<lambda>p. 1 \<le> snd p) ind)"
    if "map_of ind k = Some (1::int)" for ind :: "int dict" and k
    using that by (induction ind) (auto split: if_splits)
  have upd_le: "length (filter (\<lambda>p. 1 \<le> snd p) (AList.update k (n - 1) ind))
                   \<le> length (filter (\<lambda>p. 1 \<le> snd p) ind)"
    if "map_of ind k = Some (n::int)" for ind :: "int dict" and k n
    using that by (induction ind) (auto split: if_splits)
  have "length rdy' + length (filter (\<lambda>p. 1 \<le> snd p) ind')
          \<le> length rdy + length (filter (\<lambda>p. 1 \<le> snd p) ind)"
    if "release_neighbors tasks_by_id ns (ind, rdy) = Inr (ind', rdy')" for ns ind rdy ind' rdy'
    using that
  proof (induction ns arbitrary: ind rdy)
    case Nil
    then show ?case by simp
  next
    case (Cons nb ns)
    from Cons.prems obtain n where n: "map_of ind nb = Some n"
      by (auto split: option.splits)
    show ?case
    proof (cases "n = 1")
      case True
      with Cons.prems n obtain t where
        "release_neighbors tasks_by_id ns (AList.update nb 0 ind, rdy @ [t]) = Inr (ind', rdy')"
        by (auto split: option.splits)
      from Cons.IH [OF this] upd_one [of ind nb] n True show ?thesis by simp
    next
      case False
      with Cons.prems n have
        "release_neighbors tasks_by_id ns (AList.update nb (n - 1) ind, rdy) = Inr (ind', rdy')"
        by simp
      from Cons.IH [OF this] upd_le [OF n] show ?thesis by simp
    qed
  qed
  from this [of "graph (task_id current)" indegree ready indegree' ready'] rel x2
  show "((policy, tasks_by_id, graph,
          if ready' \<noteq> [] then sorted_reverse (priority policy) ready' else ready',
          plan @ [current], indegree'),
         (policy, tasks_by_id, graph, current # ready, plan, indegree))
        \<in> measure (\<lambda>(policy, tasks_by_id, graph, ready, plan, indegree).
                   length ready + length (filter (\<lambda>p. 1 \<le> snd p) indegree))"
    by (simp add: sorted_reverse_def)
qed

text \<open>\<open>TestPlanGenerator.generate_plan\<close>; the graph is built as in \<open>TaskSorter.sort\<close>.\<close>

definition generate_plan :: "PriorityPolicy \<Rightarrow> TestTask list \<Rightarrow> error + TestTask list" where
  "generate_plan policy tasks =
     (let tasks_by_id = tasks_by_id_of tasks in
      case build_graph tasks_by_id (map snd tasks_by_id) (\<lambda>k. [], zero_indegree tasks_by_id) of
        Inl e \<Rightarrow> Inl e
      | Inr (graph, indegree) \<Rightarrow>
          (case initial_ready_plan indegree tasks_by_id of
             Inl e \<Rightarrow> Inl e
           | Inr zero \<Rightarrow>
               (case plan_loop policy tasks_by_id graph
                       (sorted_reverse (priority policy) zero) [] indegree of
                  Inl e \<Rightarrow> Inl e
                | Inr plan \<Rightarrow>
                    if length plan \<noteq> length tasks_by_id
                    then Inl (ValueError (set (map fst tasks_by_id) - set (map task_id plan)))
                    else Inr plan)))"

section \<open>Coverage analyzer (src/planner-main/coverage/coverage\_analyzer.py)\<close>

text \<open>The dict \<open>TEST_TYPE_PRIORITY\<close>.\<close>

definition TEST_TYPE_PRIORITY :: "TestType \<rightharpoonup> int" where
  "TEST_TYPE_PRIORITY =
     [E2E \<mapsto> 5, INTEGRATION \<mapsto> 4, SECURITY \<mapsto> 4, PERFORMANCE \<mapsto> 3, EXPLORATORY \<mapsto> 2, UNIT \<mapsto> 1]"

definition is_missing :: "TestTask \<Rightarrow> bool" where
  "is_missing task =
     (case coverage_status task of
        CovEnum cs \<Rightarrow> cs = MISSING
      | CovStr s \<Rightarrow>
          (let normalized = replace_space_underscore (lower (strip s))
           in normalized \<in> {''missing'', ''not_covered'', ''notcovered''})
      | CovOther \<Rightarrow> False)"

definition find_missing_coverage :: "TestTask list \<Rightarrow> TestTask list" where
  "find_missing_coverage tasks = filter is_missing tasks"

text \<open>The local function \<open>priority\<close> of \<open>prioritize_tests\<close>.\<close>

definition coverage_priority :: "TestTask \<Rightarrow> int" where
  "coverage_priority task =
     (case TEST_TYPE_PRIORITY (test_type task) of None \<Rightarrow> 0 | Some p \<Rightarrow> p)"

definition prioritize_tests :: "TestTask list \<Rightarrow> TestTask list" where
  "prioritize_tests tasks = sorted_reverse coverage_priority (find_missing_coverage tasks)"

section \<open>Vocabulary of the ordering properties\<close>

text \<open>The dependencies of a task that are ids of the input, in the order the task lists them.\<close>

definition in_set_deps :: "TestTask list \<Rightarrow> TestTask \<Rightarrow> string list" where
  "in_set_deps tasks t = filter (\<lambda>d. d \<in> task_id ` set tasks) (dependencies t)"

text \<open>
  The dependency relation restricted to ids of the input: an edge from \<open>d\<close> to the id of
  every task that lists \<open>d\<close>.
\<close>

definition dependency_relation :: "TestTask list \<Rightarrow> (string \<times> string) set" where
  "dependency_relation tasks =
     set (concat (map (\<lambda>t. map (\<lambda>d. (d, task_id t)) (in_set_deps tasks t)) tasks))"

text \<open>
  A task is eligible after the tasks \<open>emitted\<close> when it is a task of the input, not emitted
  yet, and all its in-set dependencies are emitted.
\<close>

definition deps_emitted :: "TestTask list \<Rightarrow> TestTask list \<Rightarrow> TestTask \<Rightarrow> bool" where
  "deps_emitted tasks emitted t = list_all (\<lambda>d. d \<in> task_id ` set emitted) (in_set_deps tasks t)"

definition eligible :: "TestTask list \<Rightarrow> TestTask list \<Rightarrow> TestTask \<Rightarrow> bool" where
  "eligible tasks emitted t = (t \<in> set tasks \<and> t \<notin> set emitted \<and> deps_emitted tasks emitted t)"

text \<open>The policy under which every test type has priority 0.\<close>

definition flat_policy :: PriorityPolicy where
  "flat_policy = \<lparr>priorities = Map.empty, default_priority = 0\<rparr>"

text \<open>
  The time a task became eligible is compared through the prefixes of the emitted list:
  \<open>a\<close> was ready earlier than \<open>b\<close> when after some prefix the dependencies of \<open>a\<close> were
  emitted and those of \<open>b\<close> were not.
\<close>

definition ready_earlier :: "TestTask list \<Rightarrow> TestTask list \<Rightarrow> TestTask \<Rightarrow> TestTask \<Rightarrow> bool" where
  "ready_earlier tasks emitted a b =
     list_ex (\<lambda>k. deps_emitted tasks (take k emitted) a \<and> \<not> deps_emitted tasks (take k emitted) b)
       [0..<Suc (length emitted)]"

text \<open>\<open>a\<close> occurs in \<open>xs\<close> before the first occurrence of \<open>b\<close>.\<close>

definition precedes :: "'a list \<Rightarrow> 'a \<Rightarrow> 'a \<Rightarrow> bool" where
  "precedes xs a b = (a \<in> set (takeWhile (\<lambda>x. x \<noteq> b) xs))"

text \<open>
  The order of the ready queue among tasks of equal priority: by the time the task became
  eligible, and by input position among tasks that became eligible together.
\<close>

definition queue_before :: "TestTask list \<Rightarrow> TestTask list \<Rightarrow> TestTask \<Rightarrow> TestTask \<Rightarrow> bool" where
  "queue_before tasks emitted a b =
     (ready_earlier tasks emitted a b
      \<or> (\<not> ready_earlier tasks emitted b a \<and> precedes tasks a b))"

section \<open>Auxiliary notions of the correctness proof\<close>

text \<open>The graph that lines 30-36 build, in closed form, and the in-degree of a task after some
  tasks are emitted.\<close>

definition graph_of :: "TestTask list \<Rightarrow> string \<Rightarrow> string list" where
  "graph_of tasks d =
     concat (map (\<lambda>t. replicate (count_list (in_set_deps tasks t) d) (task_id t)) tasks)"

definition remaining :: "TestTask list \<Rightarrow> TestTask list \<Rightarrow> TestTask \<Rightarrow> nat" where
  "remaining tasks emitted t =
     length (filter (\<lambda>d. d \<notin> task_id ` set emitted) (in_set_deps tasks t))"

text \<open>What one emission must satisfy, and the invariant of the while loop.\<close>

definition step_ok :: "PriorityPolicy \<Rightarrow> TestTask list \<Rightarrow> TestTask list \<Rightarrow> TestTask \<Rightarrow> bool" where
  "step_ok policy tasks pre t =
     (eligible tasks pre t
      \<and> (\<forall>u. eligible tasks pre u \<longrightarrow>
             priority policy u \<le> priority policy t
           \<and> (u \<noteq> t \<and> priority policy u = priority policy t \<longrightarrow> queue_before tasks pre t u)))"

definition loop_inv ::
  "PriorityPolicy \<Rightarrow> TestTask list \<Rightarrow> TestTask list \<Rightarrow> TestTask list \<Rightarrow> int dict \<Rightarrow> bool" where
  "loop_inv policy tasks ready emitted indegree =
     (distinct emitted \<and> set emitted \<subseteq> set tasks
      \<and> (\<forall>t \<in> set emitted. deps_emitted tasks emitted t)
      \<and> distinct ready \<and> set ready = {t. eligible tasks emitted t}
      \<and> sorted (map (\<lambda>t. - priority policy t) ready)
      \<and> (\<forall>p. sorted_wrt (queue_before tasks emitted) (filter (\<lambda>t. priority policy t = p) ready))
      \<and> (\<forall>t \<in> set tasks. map_of indegree (task_id t) = Some (int (remaining tasks emitted t))))"

text \<open>The ids of the input that lie on a dependency cycle or depend, directly or not, on one.\<close>

definition stuck_ids :: "TestTask list \<Rightarrow> string set" where
  "stuck_ids tasks =
     {i \<in> task_id ` set tasks.
        \<exists>c. (c, c) \<in> (dependency_relation tasks)\<^sup>+ \<and> (c, i) \<in> (dependency_relation tasks)\<^sup>*}"

section \<open>Example stores and task lists\<close>

definition ghost_task :: TestTask where
  "ghost_task = \<lparr>task_id = ''Z'', description = ''waits for a ghost'', test_type = UNIT,
     dependencies = [''ghost-id''], status = PENDING, owner = None,
     coverage_status = CovEnum NOT_STARTED\<rparr>"

definition ghost_world :: world where
  "ghost_world = \<lparr>store = [''Z'' \<mapsto> ghost_task], commits = 0, notified = [], warnings = []\<rparr>"

definition ghost_world_done :: world where
  "ghost_world_done = \<lparr>store = [''Z'' \<mapsto> ghost_task\<lparr>status := DONE\<rparr>], commits = 0,
     notified = [], warnings = []\<rparr>"

definition silent :: emitter where
  "silent n = None"

definition failing :: emitter where
  "failing n = Some ''smtp down''"

definition task_X :: TestTask where
  "task_X = \<lparr>task_id = ''X'', description = ''needs Y'', test_type = INTEGRATION,
     dependencies = [''Y''], status = PENDING, owner = Some ''ann'',
     coverage_status = CovEnum NOT_STARTED\<rparr>"

definition task_Y :: TestTask where
  "task_Y = \<lparr>task_id = ''Y'', description = ''prerequisite'', test_type = UNIT,
     dependencies = [], status = PENDING, owner = None,
     coverage_status = CovEnum NOT_STARTED\<rparr>"

definition world_XY :: "TaskStatus \<Rightarrow> TaskStatus \<Rightarrow> world" where
  "world_XY sx sy = \<lparr>store = [''X'' \<mapsto> task_X\<lparr>status := sx\<rparr>, ''Y'' \<mapsto> task_Y\<lparr>status := sy\<rparr>],
     commits = 0, notified = [], warnings = []\<rparr>"

definition cov_task :: "string \<Rightarrow> TestType \<Rightarrow> coverage_value \<Rightarrow> TestTask" where
  "cov_task i tt cov = \<lparr>task_id = i, description = [], test_type = tt, dependencies = [],
     status = PENDING, owner = None, coverage_status = cov\<rparr>"

definition cov_P :: TestTask where "cov_P = cov_task ''P'' UNIT (CovEnum COMPLETE)"
definition cov_Q :: TestTask where "cov_Q = cov_task ''Q'' E2E (CovEnum MISSING)"
definition cov_R :: TestTask where "cov_R = cov_task ''R'' UNIT (CovStr '' Not Covered '')"
definition cov_S :: TestTask where "cov_S = cov_task ''S'' UNIT (CovEnum MISSING)"

definition plan_task :: "string \<Rightarrow> TestType \<Rightarrow> string list \<Rightarrow> TestTask" where
  "plan_task i tt deps = \<lparr>task_id = i, description = [], test_type = tt, dependencies = deps,
     status = PENDING, owner = None, coverage_status = CovEnum NOT_STARTED\<rparr>"

text \<open>The default priorities of the policy configuration.\<close>

definition default_policy :: PriorityPolicy where
  "default_policy = \<lparr>priorities = [''e2e'' \<mapsto> 5, ''integration'' \<mapsto> 4, ''security'' \<mapsto> 4,
      ''performance'' \<mapsto> 3, ''exploratory'' \<mapsto> 2, ''unit'' \<mapsto> 1], default_priority = 0\<rparr>"

definition chain_tasks :: "TestTask list" where
  "chain_tasks = [plan_task ''C'' UNIT [''B'', ''elsewhere''], plan_task ''A'' UNIT [],
                  plan_task ''B'' UNIT [''A'']]"

definition cycle_tasks :: "TestTask list" where
  "cycle_tasks = [plan_task ''A'' UNIT [''B''], plan_task ''B'' UNIT [''A''],
                  plan_task ''C'' UNIT [], plan_task ''D'' UNIT [''A'']]"

definition bias_tasks :: "TestTask list" where
  "bias_tasks = [plan_task ''U'' UNIT [], plan_task ''E'' E2E []]"

definition tie_tasks :: "TestTask list" where
  "tie_tasks = [plan_task ''R'' UNIT [], plan_task ''X'' UNIT [''R''], plan_task ''Y'' UNIT []]"

section \<open>Sorting by descending key\<close>

lemma sorted_reverse_sorted:
  "sorted_wrt (\<lambda>a b. key b \<le> key a) (sorted_reverse key xs)"
proof -
  have "sorted (map (\<lambda>x. - key x) (sorted_reverse key xs))"
    by (simp add: sorted_reverse_def)
  then show ?thesis
    by (simp add: sorted_map sorted_wrt_iff_nth_less)
qed

lemma sorted_reverse_stable:
  "filter (\<lambda>x. key x = p) (sorted_reverse key xs) = filter (\<lambda>x. key x = p) xs"
proof -
  have "filter (\<lambda>x. - key x = - p) (sort_key (\<lambda>x. - key x) xs) = filter (\<lambda>x. - key x = - p) xs"
    by (rule sort_key_stable)
  then show ?thesis by (simp add: sorted_reverse_def)
qed

section \<open>The dependency gate\<close>

lemma deps_all_done_iff:
  "deps_all_done st deps \<longleftrightarrow> (\<forall>d \<in> set deps. \<exists>dep. st d = Some dep \<and> status dep = DONE)"
  by (induction deps) (auto split: option.splits)

lemma dependencies_complete_Some:
  "store w tid = Some task \<Longrightarrow>
   dependencies_complete w tid =
     Some (\<forall>d \<in> set (dependencies task). \<exists>dep. store w d = Some dep \<and> status dep = DONE)"
  by (simp add: dependencies_complete_def deps_all_done_iff)

lemma can_start_iff:
  "store w tid = Some t \<Longrightarrow>
   can_start w tid \<longleftrightarrow> (\<forall>d \<in> set (dependencies t). \<exists>dep. store w d = Some dep \<and> status dep = DONE)"
  by (simp add: can_start_def dependencies_complete_Some)

lemma update_status_enum_store:
  "store w tid = Some t \<Longrightarrow>
   fst (update_status emit w tid (AsEnum s) by) = Inr True \<and>
   store (snd (update_status emit w tid (AsEnum s) by)) = (store w)(tid \<mapsto> t\<lparr>status := s\<rparr>)"
  by (simp add: update_status_def Let_def split: option.split)

lemma world_XY_X: "store (world_XY sx sy) ''X'' = Some (task_X\<lparr>status := sx\<rparr>)"
  by (simp add: world_XY_def)


text \<open>
  Claim C3, as stated, fails: a task whose only dependency is an id that resolves to no task
  of the store gets \<open>False\<close>, not \<open>True\<close>; the guard \<open>if not dep or ...\<close> of
  \<open>dependencies_complete\<close> treats the absent dependency as not done.
\<close>

theorem dependencies_complete_ghost_blocks:
  "store ghost_world ''Z'' = Some ghost_task \<and> dependencies ghost_task = [''ghost-id'']
   \<and> store ghost_world ''ghost-id'' = None
   \<and> dependencies_complete ghost_world ''Z'' = Some False"
  by (simp add: ghost_world_def ghost_task_def dependencies_complete_def)

text \<open>
  Claim C3, amended: for a task of the store, \<open>dependencies_complete\<close> returns true iff
  every dependency id resolves to a task of the store whose status is done (an id that
  resolves to no task blocks); for a task that is not in the store it returns \<open>None\<close>.
\<close>

theorem dependencies_complete_spec:
  "dependencies_complete w tid =
     (case store w tid of
        None \<Rightarrow> None
      | Some task \<Rightarrow>
          Some (\<forall>d \<in> set (dependencies task). \<exists>dep. store w d = Some dep \<and> status dep = DONE))"
  by (auto simp: dependencies_complete_def deps_all_done_iff split: option.split)

theorem dependencies_complete_spec_witness:
  "dependencies_complete (world_XY PENDING DONE) ''X'' = Some True
   \<and> dependencies_complete (world_XY PENDING PENDING) ''X'' = Some False
   \<and> dependencies_complete (world_XY PENDING PENDING) ''W'' = None"
  using dependencies_complete_spec [of "world_XY PENDING DONE" "''X''"]
        dependencies_complete_spec [of "world_XY PENDING PENDING" "''X''"]
        dependencies_complete_spec [of "world_XY PENDING PENDING" "''W''"]
  by (simp add: world_XY_def task_X_def task_Y_def)

text \<open>
  Claim C4, as stated, fails in its second half: with no dependency of the store that is
  not done, \<open>mark_in_progress_if_ready\<close> and \<open>start_if_ready\<close> still return false when a
  dependency id resolves to no task of the store.
\<close>

theorem gate_ghost_counterexample:
  "store ghost_world ''Z'' = Some ghost_task \<and> dependencies ghost_task = [''ghost-id'']
   \<and> store ghost_world ''ghost-id'' = None
   \<and> mark_in_progress_if_ready ghost_world ''Z'' = (False, ghost_world)
   \<and> start_if_ready silent ghost_world ''Z'' = (Inr False, ghost_world)"
  by (simp add: ghost_world_def ghost_task_def dependencies_complete_def
      mark_in_progress_if_ready_def start_if_ready_def can_start_def)

text \<open>
  Claim C4, amended: for a task of the store, the four gated operations return false and
  leave the whole world (statuses, commits, notifications, warnings) as it was whenever
  some dependency of the store is not done, and also whenever some dependency id resolves
  to no task of the store; when every dependency id resolves to a task that is done, they
  return true and write \<open>IN_PROGRESS\<close> (resp. \<open>DONE\<close>) to the task.
\<close>

theorem gate_correctness:
  assumes "store w tid = Some t"
  shows "((\<exists>d \<in> set (dependencies t). \<exists>dep. store w d = Some dep \<and> status dep \<noteq> DONE) \<longrightarrow>
            mark_in_progress_if_ready w tid = (False, w) \<and> complete_task w tid = (False, w) \<and>
            start_if_ready emit w tid = (Inr False, w) \<and> complete_if_ready emit w tid = (Inr False, w))
       \<and> ((\<exists>d \<in> set (dependencies t). store w d = None) \<longrightarrow>
            mark_in_progress_if_ready w tid = (False, w) \<and> complete_task w tid = (False, w) \<and>
            start_if_ready emit w tid = (Inr False, w) \<and> complete_if_ready emit w tid = (Inr False, w))
       \<and> ((\<forall>d \<in> set (dependencies t). \<exists>dep. store w d = Some dep \<and> status dep = DONE) \<longrightarrow>
            fst (mark_in_progress_if_ready w tid) = True \<and>
            store (snd (mark_in_progress_if_ready w tid)) = (store w)(tid \<mapsto> t\<lparr>status := IN_PROGRESS\<rparr>) \<and>
            fst (complete_task w tid) = True \<and>
            store (snd (complete_task w tid)) = (store w)(tid \<mapsto> t\<lparr>status := DONE\<rparr>) \<and>
            fst (start_if_ready emit w tid) = Inr True \<and>
            store (snd (start_if_ready emit w tid)) = (store w)(tid \<mapsto> t\<lparr>status := IN_PROGRESS\<rparr>) \<and>
            fst (complete_if_ready emit w tid) = Inr True \<and>
            store (snd (complete_if_ready emit w tid)) = (store w)(tid \<mapsto> t\<lparr>status := DONE\<rparr>))"
proof (intro conjI impI)
  assume "\<exists>d \<in> set (dependencies t). \<exists>dep. store w d = Some dep \<and> status dep \<noteq> DONE"
  then have blocked: "\<not> can_start w tid"
    using assms by (fastforce simp: can_start_iff)
  show "mark_in_progress_if_ready w tid = (False, w)"
    using assms blocked by (simp add: mark_in_progress_if_ready_def can_start_def)
  show "complete_task w tid = (False, w)"
    using assms blocked by (simp add: complete_task_def can_start_def)
  show "start_if_ready emit w tid = (Inr False, w)"
    using blocked by (simp add: start_if_ready_def)
  show "complete_if_ready emit w tid = (Inr False, w)"
    using blocked by (simp add: complete_if_ready_def)
next
  assume "\<exists>d \<in> set (dependencies t). store w d = None"
  then have blocked: "\<not> can_start w tid"
    using assms by (fastforce simp: can_start_iff)
  show "mark_in_progress_if_ready w tid = (False, w)"
    using assms blocked by (simp add: mark_in_progress_if_ready_def can_start_def)
  show "complete_task w tid = (False, w)"
    using assms blocked by (simp add: complete_task_def can_start_def)
  show "start_if_ready emit w tid = (Inr False, w)"
    using blocked by (simp add: start_if_ready_def)
  show "complete_if_ready emit w tid = (Inr False, w)"
    using blocked by (simp add: complete_if_ready_def)
next
  assume "\<forall>d \<in> set (dependencies t). \<exists>dep. store w d = Some dep \<and> status dep = DONE"
  then have ready: "can_start w tid"
    using assms by (simp add: can_start_iff)
  show "fst (mark_in_progress_if_ready w tid) = True"
    using assms ready by (simp add: mark_in_progress_if_ready_def can_start_def)
  show "store (snd (mark_in_progress_if_ready w tid)) = (store w)(tid \<mapsto> t\<lparr>status := IN_PROGRESS\<rparr>)"
    using assms ready by (simp add: mark_in_progress_if_ready_def can_start_def)
  show "fst (complete_task w tid) = True"
    using assms ready by (simp add: complete_task_def can_start_def)
  show "store (snd (complete_task w tid)) = (store w)(tid \<mapsto> t\<lparr>status := DONE\<rparr>)"
    using assms ready by (simp add: complete_task_def can_start_def)
  show "fst (start_if_ready emit w tid) = Inr True"
    using ready update_status_enum_store [OF assms] by (simp add: start_if_ready_def)
  show "store (snd (start_if_ready emit w tid)) = (store w)(tid \<mapsto> t\<lparr>status := IN_PROGRESS\<rparr>)"
    using ready update_status_enum_store [OF assms] by (simp add: start_if_ready_def)
  show "fst (complete_if_ready emit w tid) = Inr True"
    using ready update_status_enum_store [OF assms] by (simp add: complete_if_ready_def)
  show "store (snd (complete_if_ready emit w tid)) = (store w)(tid \<mapsto> t\<lparr>status := DONE\<rparr>)"
    using ready update_status_enum_store [OF assms] by (simp add: complete_if_ready_def)
qed

theorem gate_correctness_witness:
  "start_if_ready silent (world_XY PENDING PENDING) ''X'' = (Inr False, world_XY PENDING PENDING)
   \<and> mark_in_progress_if_ready (world_XY PENDING PENDING) ''X'' = (False, world_XY PENDING PENDING)
   \<and> start_if_ready silent ghost_world ''Z'' = (Inr False, ghost_world)
   \<and> fst (start_if_ready silent (world_XY PENDING DONE) ''X'') = Inr True
   \<and> store (snd (start_if_ready silent (world_XY PENDING DONE) ''X'')) ''X''
       = Some (task_X\<lparr>status := IN_PROGRESS\<rparr>)
   \<and> store (snd (complete_if_ready silent (world_XY PENDING DONE) ''X'')) ''X''
       = Some (task_X\<lparr>status := DONE\<rparr>)"
  using gate_correctness [OF world_XY_X, of PENDING PENDING silent]
        gate_correctness [OF world_XY_X, of PENDING DONE silent]
        gate_correctness [of ghost_world "''Z''" ghost_task silent]
  by (simp add: world_XY_def task_X_def task_Y_def ghost_world_def ghost_task_def)

text \<open>
  Claim C7, as stated, fails: \<open>update_status\<close> is one of the status-writing operations and
  writes \<open>DONE\<close> to a task whose dependency, present in the store, is still pending.
\<close>

theorem update_status_bypasses_gate:
  "map_option status (store (world_XY PENDING PENDING) ''X'') = Some PENDING
   \<and> dependencies task_X = [''Y'']
   \<and> map_option status (store (world_XY PENDING PENDING) ''Y'') = Some PENDING
   \<and> map_option status
        (store (run_ops silent (world_XY PENDING PENDING) [UpdateStatus ''X'' (AsEnum DONE) None]) ''X'')
       = Some DONE"
  by (simp add: world_XY_def task_X_def task_Y_def update_status_def silent_def Let_def)

lemma apply_op_gated_status:
  assumes "gated op" and "store w tid = Some t" and "store (apply_op emit w op) tid = Some t'"
    and "status t' \<noteq> status t"
  shows "\<forall>d \<in> set (dependencies t). \<exists>dep. store w d = Some dep \<and> status dep = DONE"
proof (cases op)
  case (StartIfReady x)
  show ?thesis
  proof (cases "can_start w x")
    case True
    then obtain tx where tx: "store w x = Some tx"
      by (auto simp: can_start_def dependencies_complete_def split: option.splits)
    have "x = tid"
      using assms(2-4) StartIfReady True update_status_enum_store [OF tx, of emit IN_PROGRESS None]
      by (auto simp: start_if_ready_def split: if_splits)
    then show ?thesis using True assms(2) by (simp add: can_start_iff)
  next
    case False
    then show ?thesis using assms(2-4) StartIfReady by (simp add: start_if_ready_def)
  qed
next
  case (CompleteIfReady x)
  show ?thesis
  proof (cases "can_start w x")
    case True
    then obtain tx where tx: "store w x = Some tx"
      by (auto simp: can_start_def dependencies_complete_def split: option.splits)
    have "x = tid"
      using assms(2-4) CompleteIfReady True update_status_enum_store [OF tx, of emit DONE None]
      by (auto simp: complete_if_ready_def split: if_splits)
    then show ?thesis using True assms(2) by (simp add: can_start_iff)
  next
    case False
    then show ?thesis using assms(2-4) CompleteIfReady by (simp add: complete_if_ready_def)
  qed
next
  case (UpdateStatus x s cb)
  then show ?thesis using assms(1) by simp
next
  case (MarkInProgressIfReady x)
  show ?thesis
  proof (cases "can_start w x")
    case True
    then obtain tx where tx: "store w x = Some tx"
      by (auto simp: can_start_def dependencies_complete_def split: option.splits)
    have "x = tid"
      using assms(2-4) MarkInProgressIfReady True tx
      by (auto simp: mark_in_progress_if_ready_def can_start_def split: if_splits)
    then show ?thesis using True assms(2) by (simp add: can_start_iff)
  next
    case False
    then show ?thesis using assms(2-4) MarkInProgressIfReady
      by (simp add: mark_in_progress_if_ready_def can_start_def split: option.splits)
  qed
next
  case (CompleteTask x)
  show ?thesis
  proof (cases "can_start w x")
    case True
    then obtain tx where tx: "store w x = Some tx"
      by (auto simp: can_start_def dependencies_complete_def split: option.splits)
    have "x = tid"
      using assms(2-4) CompleteTask True tx
      by (auto simp: complete_task_def can_start_def split: if_splits)
    then show ?thesis using True assms(2) by (simp add: can_start_iff)
  next
    case False
    then show ?thesis using assms(2-4) CompleteTask
      by (simp add: complete_task_def can_start_def split: option.splits)
  qed
qed

text \<open>
  Claim C7, amended: across every sequence of gated operations (\<open>start_if_ready\<close>,
  \<open>complete_if_ready\<close>, \<open>mark_in_progress_if_ready\<close>, \<open>complete_task\<close>; \<open>update_status\<close>
  bypasses the gate), whenever a step changes the status of a task, every dependency id
  of that task resolves, in the store before the step, to a task whose status is done.
\<close>

theorem gated_ops_respect_dependencies:
  assumes "\<forall>op \<in> set ops. gated op"
    and "i < length ops"
    and "store (run_ops emit w0 (take i ops)) tid = Some t"
    and "store (run_ops emit w0 (take (Suc i) ops)) tid = Some t'"
    and "status t' \<noteq> status t"
    and "d \<in> set (dependencies t)"
  shows "\<exists>dep. store (run_ops emit w0 (take i ops)) d = Some dep \<and> status dep = DONE"
proof -
  have run_snoc: "run_ops emit w (xs @ [x]) = apply_op emit (run_ops emit w xs) x" for w xs x
    by (induction xs arbitrary: w) simp_all
  have "take (Suc i) ops = take i ops @ [ops ! i]"
    using assms(2) by (simp add: take_Suc_conv_app_nth)
  then have step: "run_ops emit w0 (take (Suc i) ops) = apply_op emit (run_ops emit w0 (take i ops)) (ops ! i)"
    by (simp add: run_snoc)
  have "gated (ops ! i)"
    using assms(1,2) by simp
  from apply_op_gated_status [OF this assms(3) assms(4) [unfolded step] assms(5)] assms(6)
  show ?thesis by blast
qed

theorem gated_ops_respect_dependencies_witness:
  "gated (CompleteTask ''Y'') \<and> gated (StartIfReady ''X'')
   \<and> map_option status
        (store (run_ops silent (world_XY PENDING PENDING) (take 1 [CompleteTask ''Y'', StartIfReady ''X''])) ''X'')
       = Some PENDING
   \<and> map_option status
        (store (run_ops silent (world_XY PENDING PENDING) (take 2 [CompleteTask ''Y'', StartIfReady ''X''])) ''X'')
       = Some IN_PROGRESS
   \<and> (\<exists>dep. store (run_ops silent (world_XY PENDING PENDING) (take 1 [CompleteTask ''Y'', StartIfReady ''X''])) ''Y''
         = Some dep \<and> status dep = DONE)"
proof -
  let ?ops = "[CompleteTask ''Y'', StartIfReady ''X'']"
  let ?w1 = "run_ops silent (world_XY PENDING PENDING) (take 1 ?ops)"
  let ?w2 = "run_ops silent (world_XY PENDING PENDING) (take (Suc 1) ?ops)"
  have g: "\<forall>op \<in> set ?ops. gated op" by simp
  have s1: "store ?w1 ''X'' = Some (task_X\<lparr>status := PENDING\<rparr>)"
    by (simp add: world_XY_def task_X_def task_Y_def complete_task_def dependencies_complete_def)
  have s2: "store ?w2 ''X'' = Some (task_X\<lparr>status := IN_PROGRESS\<rparr>)"
    by (simp add: world_XY_def task_X_def task_Y_def complete_task_def dependencies_complete_def
        start_if_ready_def can_start_def update_status_def silent_def Let_def)
  have "\<exists>dep. store ?w1 ''Y'' = Some dep \<and> status dep = DONE"
    using gated_ops_respect_dependencies [OF g _ s1 s2, of "''Y''"]
    by (simp add: task_X_def)
  then show ?thesis using s1 s2 by (simp del: run_ops.simps take_Suc_Cons add: numeral_2_eq_2)
qed

text \<open>
  Claim C8: \<open>update_status\<close> with a status (an enum member or a string naming one) returns
  false, changing nothing, when the task does not exist; otherwise it returns true, writes
  the status without looking at dependencies, commits, and calls the notification emitter
  exactly when the old status differs from the new one. All this holds for every emitter,
  also one that raises.
\<close>

theorem update_status_semantics:
  assumes "to_TaskStatus new_status = Inr s"
  shows "(store w tid = None \<longrightarrow> update_status emit w tid new_status by = (Inr False, w))
       \<and> (\<forall>t. store w tid = Some t \<longrightarrow>
            fst (update_status emit w tid new_status by) = Inr True
          \<and> store (snd (update_status emit w tid new_status by)) = (store w)(tid \<mapsto> t\<lparr>status := s\<rparr>)
          \<and> commits (snd (update_status emit w tid new_status by)) = Suc (commits w)
          \<and> notified (snd (update_status emit w tid new_status by)) =
              notified w @
              (if status t \<noteq> s
               then [\<lparr>n_task_id = tid, n_task_description = description t,
                      n_old_status = status t, n_new_status = s,
                      n_task_owner = owner t, n_changed_by = by\<rparr>]
               else []))"
  using assms by (auto simp: update_status_def Let_def split: option.split)

theorem update_status_semantics_witness:
  "to_TaskStatus (AsStr ''done'') = Inr DONE
   \<and> update_status failing (world_XY PENDING PENDING) ''W'' (AsStr ''done'') None
       = (Inr False, world_XY PENDING PENDING)
   \<and> fst (update_status failing (world_XY PENDING PENDING) ''X'' (AsStr ''done'') None) = Inr True
   \<and> map_option status
        (store (snd (update_status failing (world_XY PENDING PENDING) ''X'' (AsStr ''done'') None)) ''X'')
       = Some DONE
   \<and> length (notified (snd (update_status failing (world_XY PENDING PENDING) ''X'' (AsStr ''done'') None))) = 1
   \<and> notified (snd (update_status failing (world_XY DONE PENDING) ''X'' (AsStr ''done'') None)) = []"
  using update_status_semantics [of "AsStr ''done''" DONE "world_XY PENDING PENDING" "''W''" failing None]
        update_status_semantics [of "AsStr ''done''" DONE "world_XY PENDING PENDING" "''X''" failing None]
        update_status_semantics [of "AsStr ''done''" DONE "world_XY DONE PENDING" "''X''" failing None]
  by (simp add: world_XY_def task_X_def task_Y_def TaskStatus_of_string_def)

text \<open>
  Claim C10, as stated, fails: a task that is done, whose only dependency id resolves to
  no task of the store (so all its dependencies of the store are done), is not moved by
  \<open>start_if_ready\<close>.
\<close>

theorem start_if_ready_ghost_counterexample:
  "store ghost_world_done ''Z'' = Some (ghost_task\<lparr>status := DONE\<rparr>)
   \<and> dependencies (ghost_task\<lparr>status := DONE\<rparr>) = [''ghost-id'']
   \<and> store ghost_world_done ''ghost-id'' = None
   \<and> start_if_ready silent ghost_world_done ''Z'' = (Inr False, ghost_world_done)
   \<and> complete_if_ready silent ghost_world_done ''Z'' = (Inr False, ghost_world_done)
   \<and> mark_in_progress_if_ready ghost_world_done ''Z'' = (False, ghost_world_done)"
  by (simp add: ghost_world_done_def ghost_task_def dependencies_complete_def
      mark_in_progress_if_ready_def start_if_ready_def complete_if_ready_def can_start_def)

text \<open>
  Claim C10, amended: the gate never reads the status of the task itself. For every task
  of the store whose dependency ids all resolve to tasks that are done, the gated
  operations succeed and write \<open>IN_PROGRESS\<close> (resp. \<open>DONE\<close>) whatever the status of the
  task was; a task that is done or blocked is moved back to in progress.
\<close>

theorem gate_ignores_own_status:
  assumes "store w tid = Some t"
    and "\<forall>d \<in> set (dependencies t). \<exists>dep. store w d = Some dep \<and> status dep = DONE"
  shows "fst (start_if_ready emit w tid) = Inr True
       \<and> map_option status (store (snd (start_if_ready emit w tid)) tid) = Some IN_PROGRESS
       \<and> fst (complete_if_ready emit w tid) = Inr True
       \<and> map_option status (store (snd (complete_if_ready emit w tid)) tid) = Some DONE
       \<and> fst (mark_in_progress_if_ready w tid) = True
       \<and> map_option status (store (snd (mark_in_progress_if_ready w tid)) tid) = Some IN_PROGRESS
       \<and> fst (complete_task w tid) = True
       \<and> map_option status (store (snd (complete_task w tid)) tid) = Some DONE"
proof -
  have ready: "can_start w tid"
    using assms by (simp add: can_start_iff)
  have "fst (start_if_ready emit w tid) = Inr True"
    and "map_option status (store (snd (start_if_ready emit w tid)) tid) = Some IN_PROGRESS"
    using ready update_status_enum_store [OF assms(1), of emit IN_PROGRESS None]
    by (simp_all add: start_if_ready_def)
  moreover have "fst (complete_if_ready emit w tid) = Inr True"
    and "map_option status (store (snd (complete_if_ready emit w tid)) tid) = Some DONE"
    using ready update_status_enum_store [OF assms(1), of emit DONE None]
    by (simp_all add: complete_if_ready_def)
  moreover have "fst (mark_in_progress_if_ready w tid) = True"
    and "map_option status (store (snd (mark_in_progress_if_ready w tid)) tid) = Some IN_PROGRESS"
    using ready assms(1) by (simp_all add: mark_in_progress_if_ready_def can_start_def)
  moreover have "fst (complete_task w tid) = True"
    and "map_option status (store (snd (complete_task w tid)) tid) = Some DONE"
    using ready assms(1) by (simp_all add: complete_task_def can_start_def)
  ultimately show ?thesis by simp
qed

theorem gate_ignores_own_status_witness:
  "store (world_XY DONE DONE) ''X'' = Some (task_X\<lparr>status := DONE\<rparr>)
   \<and> fst (start_if_ready silent (world_XY DONE DONE) ''X'') = Inr True
   \<and> map_option status (store (snd (start_if_ready silent (world_XY DONE DONE) ''X'')) ''X'')
       = Some IN_PROGRESS
   \<and> fst (start_if_ready silent (world_XY BLOCKED DONE) ''X'') = Inr True
   \<and> map_option status (store (snd (start_if_ready silent (world_XY BLOCKED DONE) ''X'')) ''X'')
       = Some IN_PROGRESS"
  using gate_ignores_own_status [OF world_XY_X, of DONE DONE silent]
        gate_ignores_own_status [OF world_XY_X, of BLOCKED DONE silent]
  by (simp add: world_XY_def task_X_def task_Y_def)

section \<open>Coverage gap prioritization\<close>

lemma is_missing_examples:
  "\<not> is_missing cov_P" "is_missing cov_Q" "is_missing cov_R" "is_missing cov_S"
  by code_simp+

lemma prioritize_example: "prioritize_tests [cov_P, cov_R, cov_Q, cov_S] = [cov_Q, cov_R, cov_S]"
  by code_simp

text \<open>
  Claim C9: \<open>prioritize_tests\<close> returns exactly the tasks of the input that satisfy the
  normalized missing predicate (with their multiplicities), in descending order of the
  test-type priority of their category, tasks of equal priority in their input order; no
  other task appears. The predicate holds for the enum member \<open>MISSING\<close> and for a string
  that after \<open>strip\<close>, \<open>lower\<close> and replacing spaces by underscores is \<open>missing\<close>,
  \<open>not_covered\<close> or \<open>notcovered\<close>.
\<close>

theorem prioritize_tests_spec:
  "mset (prioritize_tests tasks) = mset (filter is_missing tasks)
   \<and> (\<forall>t \<in> set (prioritize_tests tasks). is_missing t)
   \<and> sorted_wrt (\<lambda>a b. coverage_priority b \<le> coverage_priority a) (prioritize_tests tasks)
   \<and> (\<forall>p. filter (\<lambda>t. coverage_priority t = p) (prioritize_tests tasks)
          = filter (\<lambda>t. coverage_priority t = p) (filter is_missing tasks))
   \<and> (\<forall>t. is_missing t \<longleftrightarrow>
          coverage_status t = CovEnum MISSING
          \<or> (\<exists>s. coverage_status t = CovStr s
               \<and> replace_space_underscore (lower (strip s))
                    \<in> {''missing'', ''not_covered'', ''notcovered''}))"
proof (intro conjI allI)
  show "mset (prioritize_tests tasks) = mset (filter is_missing tasks)"
    by (simp add: prioritize_tests_def find_missing_coverage_def sorted_reverse_def)
  show "\<forall>t \<in> set (prioritize_tests tasks). is_missing t"
    by (simp add: prioritize_tests_def find_missing_coverage_def sorted_reverse_def)
  show "sorted_wrt (\<lambda>a b. coverage_priority b \<le> coverage_priority a) (prioritize_tests tasks)"
    by (simp add: prioritize_tests_def sorted_reverse_sorted)
  show "filter (\<lambda>t. coverage_priority t = p) (prioritize_tests tasks)
          = filter (\<lambda>t. coverage_priority t = p) (filter is_missing tasks)" for p
    by (simp add: prioritize_tests_def find_missing_coverage_def sorted_reverse_stable)
  show "is_missing t \<longleftrightarrow>
          coverage_status t = CovEnum MISSING
          \<or> (\<exists>s. coverage_status t = CovStr s
               \<and> replace_space_underscore (lower (strip s))
                    \<in> {''missing'', ''not_covered'', ''notcovered''})" for t
    by (cases "coverage_status t") (simp_all add: is_missing_def Let_def)
qed

theorem prioritize_tests_spec_witness:
  "prioritize_tests [cov_P, cov_R, cov_Q, cov_S] = [cov_Q, cov_R, cov_S]
   \<and> \<not> is_missing cov_P \<and> is_missing cov_Q \<and> is_missing cov_R \<and> is_missing cov_S
   \<and> mset (prioritize_tests [cov_P, cov_R, cov_Q, cov_S])
       = mset (filter is_missing [cov_P, cov_R, cov_Q, cov_S])"
proof -
  from prioritize_tests_spec [of "[cov_P, cov_R, cov_Q, cov_S]"]
  have "mset (prioritize_tests [cov_P, cov_R, cov_Q, cov_S])
          = mset (filter is_missing [cov_P, cov_R, cov_Q, cov_S])"
    by (rule conjunct1)
  with prioritize_example is_missing_examples show ?thesis
    by (simp only: simp_thms)
qed

section \<open>The topological sorter and the plan generator\<close>

subsection \<open>Building the dict, the graph and the in-degrees\<close>

lemma update_fresh: "k \<notin> fst ` set al \<Longrightarrow> AList.update k v al = al @ [(k, v)]"
  by (induction al) auto

lemma foldl_update_distinct:
  "distinct (map task_id ts) \<Longrightarrow> task_id ` set ts \<inter> fst ` set acc = {} \<Longrightarrow>
   foldl (\<lambda>d t. AList.update (task_id t) t d) acc ts = acc @ map (\<lambda>t. (task_id t, t)) ts"
proof (induction ts arbitrary: acc)
  case Nil
  then show ?case by simp
next
  case (Cons t ts)
  have fresh: "task_id t \<notin> fst ` set acc"
    using Cons.prems(2) by auto
  have "task_id ` set ts \<inter> fst ` set (acc @ [(task_id t, t)]) = {}"
    using Cons.prems by auto
  with Cons.IH [of "acc @ [(task_id t, t)]"] Cons.prems(1) fresh show ?case
    by (simp add: update_fresh)
qed

lemma tasks_by_id_of_distinct:
  "distinct (map task_id tasks) \<Longrightarrow> tasks_by_id_of tasks = map (\<lambda>t. (task_id t, t)) tasks"
  using foldl_update_distinct [of tasks "[]"] by (simp add: tasks_by_id_of_def)

lemma map_of_tasks:
  "distinct (map task_id tasks) \<Longrightarrow> t \<in> set tasks \<Longrightarrow>
   map_of (map (\<lambda>t. (task_id t, t)) tasks) (task_id t) = Some t"
  by (induction tasks) (auto simp: rev_image_eqI)

lemma map_of_tasks_None:
  "map_of (map (\<lambda>t. (task_id t, t)) tasks) d = None \<longleftrightarrow> d \<notin> task_id ` set tasks"
  by (induction tasks) auto

lemma update_keys_same:
  "map_of al k = Some v \<Longrightarrow> map fst (AList.update k v' al) = map fst al"
  by (induction al) (auto split: if_splits)

lemma add_dependencies_char:
  assumes "map_of ind tid = Some n"
  shows "\<exists>ind'. add_dependencies tbi tid deps (g, ind)
           = Inr (\<lambda>d. g d @ replicate (count_list (filter (\<lambda>d. map_of tbi d \<noteq> None) deps) d) tid, ind')
         \<and> map fst ind' = map fst ind
         \<and> map_of ind' = (map_of ind)(tid \<mapsto> n + int (length (filter (\<lambda>d. map_of tbi d \<noteq> None) deps)))"
  using assms
proof (induction deps arbitrary: g ind n)
  case Nil
  then show ?case by (auto simp: fun_upd_idem)
next
  case (Cons dep deps)
  show ?case
  proof (cases "map_of tbi dep = None")
    case True
    with Cons.IH [OF Cons.prems, of g] show ?thesis by simp
  next
    case False
    let ?g = "g(dep := g dep @ [tid])"
    let ?ind = "AList.update tid (n + 1) ind"
    have m: "map_of ?ind tid = Some (n + 1)"
      by (simp add: update_conv')
    from Cons.IH [OF m, of ?g] obtain ind' where
      r: "add_dependencies tbi tid deps (?g, ?ind)
           = Inr (\<lambda>d. ?g d @ replicate (count_list (filter (\<lambda>d. map_of tbi d \<noteq> None) deps) d) tid, ind')"
      and k: "map fst ind' = map fst ?ind"
      and v: "map_of ind' = (map_of ?ind)(tid \<mapsto> n + 1 + int (length (filter (\<lambda>d. map_of tbi d \<noteq> None) deps)))"
      by blast
    have g_eq: "(\<lambda>d. ?g d @ replicate (count_list (filter (\<lambda>d. map_of tbi d \<noteq> None) deps) d) tid)
          = (\<lambda>d. g d @ replicate (count_list (filter (\<lambda>d. map_of tbi d \<noteq> None) (dep # deps)) d) tid)"
      using False by (auto simp: fun_eq_iff replicate_app_Cons_same)
    have step: "add_dependencies tbi tid (dep # deps) (g, ind) = add_dependencies tbi tid deps (?g, ?ind)"
      using False Cons.prems by (cases "map_of tbi dep") auto
    have "add_dependencies tbi tid (dep # deps) (g, ind)
           = Inr (\<lambda>d. g d @ replicate (count_list (filter (\<lambda>d. map_of tbi d \<noteq> None) (dep # deps)) d) tid, ind')"
      by (simp only: step r g_eq)
    moreover have "map fst ind' = map fst ind"
      using k Cons.prems by (simp add: update_keys_same)
    moreover have "map_of ind' = (map_of ind)(tid \<mapsto> n + int (length (filter (\<lambda>d. map_of tbi d \<noteq> None) (dep # deps))))"
      using v False by (simp add: update_conv' ac_simps)
    ultimately show ?thesis
      by blast
  qed
qed

lemma build_graph_char:
  assumes "distinct (map task_id ts)" and "task_id ` set ts \<subseteq> fst ` set ind"
  shows "\<exists>ind'. build_graph tbi ts (g, ind)
           = Inr (\<lambda>d. g d @ concat (map (\<lambda>t. replicate
                    (count_list (filter (\<lambda>d. map_of tbi d \<noteq> None) (dependencies t)) d) (task_id t)) ts), ind')
         \<and> map fst ind' = map fst ind
         \<and> (\<forall>k. k \<notin> task_id ` set ts \<longrightarrow> map_of ind' k = map_of ind k)
         \<and> (\<forall>t \<in> set ts. map_of ind' (task_id t)
               = Some (the (map_of ind (task_id t))
                        + int (length (filter (\<lambda>d. map_of tbi d \<noteq> None) (dependencies t)))))"
  using assms
proof (induction ts arbitrary: g ind)
  case Nil
  then show ?case by simp
next
  case (Cons t ts)
  let ?P = "\<lambda>d. map_of tbi d \<noteq> None"
  from Cons.prems(2) obtain n where n: "map_of ind (task_id t) = Some n"
    by (auto simp: image_iff) (metis weak_map_of_SomeI not_Some_eq)
  from add_dependencies_char [OF n, of tbi "dependencies t" g] obtain ind1 where
    a: "add_dependencies tbi (task_id t) (dependencies t) (g, ind)
         = Inr (\<lambda>d. g d @ replicate (count_list (filter ?P (dependencies t)) d) (task_id t), ind1)"
    and k1: "map fst ind1 = map fst ind"
    and v1: "map_of ind1 = (map_of ind)(task_id t \<mapsto> n + int (length (filter ?P (dependencies t))))"
    by blast
  have keys1: "task_id ` set ts \<subseteq> fst ` set ind1"
    using Cons.prems(2) k1 by (metis (no_types, lifting) insert_subset list.set(2) image_insert set_map)
  have d: "distinct (map task_id ts)"
    using Cons.prems(1) by simp
  from Cons.IH [OF d keys1, of "\<lambda>d. g d @ replicate (count_list (filter ?P (dependencies t)) d) (task_id t)"]
  obtain ind' where
    b: "build_graph tbi ts (\<lambda>d. g d @ replicate (count_list (filter ?P (dependencies t)) d) (task_id t), ind1)
         = Inr (\<lambda>d. (g d @ replicate (count_list (filter ?P (dependencies t)) d) (task_id t))
                  @ concat (map (\<lambda>t. replicate (count_list (filter ?P (dependencies t)) d) (task_id t)) ts), ind')"
    and k2: "map fst ind' = map fst ind1"
    and o2: "\<forall>k. k \<notin> task_id ` set ts \<longrightarrow> map_of ind' k = map_of ind1 k"
    and v2: "\<forall>u \<in> set ts. map_of ind' (task_id u)
               = Some (the (map_of ind1 (task_id u)) + int (length (filter ?P (dependencies u))))"
    by blast
  have notin: "task_id t \<notin> task_id ` set ts"
    using Cons.prems(1) by auto
  have "build_graph tbi (t # ts) (g, ind)
         = Inr (\<lambda>d. g d @ concat (map (\<lambda>t. replicate (count_list (filter ?P (dependencies t)) d) (task_id t)) (t # ts)), ind')"
    using a b by simp
  moreover have "map fst ind' = map fst ind"
    using k1 k2 by simp
  moreover have "\<forall>k. k \<notin> task_id ` set (t # ts) \<longrightarrow> map_of ind' k = map_of ind k"
    using o2 v1 by simp
  moreover have "\<forall>u \<in> set (t # ts). map_of ind' (task_id u)
               = Some (the (map_of ind (task_id u)) + int (length (filter ?P (dependencies u))))"
  proof
    fix u assume "u \<in> set (t # ts)"
    then consider "u = t" | "u \<in> set ts" by auto
    then show "map_of ind' (task_id u)
               = Some (the (map_of ind (task_id u)) + int (length (filter ?P (dependencies u))))"
    proof cases
      case 1
      then show ?thesis using o2 notin v1 n by simp
    next
      case 2
      then have "task_id u \<noteq> task_id t" using notin by (metis imageI)
      then show ?thesis using v2 2 v1 by simp
    qed
  qed
  ultimately show ?case by blast
qed

subsection \<open>The inner loop over the neighbours\<close>

lemma release_neighbors_char:
  assumes "\<forall>n \<in> set ns. \<exists>v t. map_of ind n = Some v \<and> int (count_list ns n) \<le> v \<and> map_of tbi n = Some t"
  shows "\<exists>ind'. release_neighbors tbi ns (ind, rdy)
           = Inr (ind', rdy @ map (\<lambda>n. the (map_of tbi n))
                    (filter (\<lambda>n. map_of ind n = Some (int (count_list ns n))) (remdups ns)))
         \<and> map fst ind' = map fst ind
         \<and> (\<forall>k. map_of ind' k = map_option (\<lambda>v. v - int (count_list ns k)) (map_of ind k))"
  using assms
proof (induction ns arbitrary: ind rdy)
  case Nil
  show ?case by (simp add: option.map_ident)
next
  case (Cons nb ns)
  from Cons.prems obtain v t where v: "map_of ind nb = Some v"
    and vge: "int (count_list (nb # ns) nb) \<le> v" and t: "map_of tbi nb = Some t"
    by auto
  let ?ind = "AList.update nb (v - 1) ind"
  have pre: "\<forall>n \<in> set ns. \<exists>w u. map_of ?ind n = Some w \<and> int (count_list ns n) \<le> w \<and> map_of tbi n = Some u"
  proof
    fix n assume n: "n \<in> set ns"
    with Cons.prems obtain w u where w: "map_of ind n = Some w"
      and wge: "int (count_list (nb # ns) n) \<le> w" and u: "map_of tbi n = Some u"
      by auto
    show "\<exists>w u. map_of ?ind n = Some w \<and> int (count_list ns n) \<le> w \<and> map_of tbi n = Some u"
    proof (cases "n = nb")
      case True
      then show ?thesis using v w wge u by (simp add: update_conv')
    next
      case False
      then show ?thesis using w wge u by (simp add: update_conv')
    qed
  qed
  have keys: "map fst ?ind = map fst ind"
    using v by (rule update_keys_same)
  have vals: "map_option (\<lambda>w. w - int (count_list ns k)) (map_of ?ind k)
                = map_option (\<lambda>w. w - int (count_list (nb # ns) k)) (map_of ind k)" for k
    using v by (cases "map_of ind k") (auto simp: update_conv')
  show ?case
  proof (cases "v - 1 = 0")
    case True
    then have v1: "v = 1" by simp
    have count_notin: "count_list ns nb = 0 \<Longrightarrow> nb \<in> set ns \<Longrightarrow> False"
      by (induction ns) (auto split: if_splits)
    from v1 vge have notin: "nb \<notin> set ns"
      by (cases "nb \<in> set ns") (auto dest: count_notin)
    from Cons.IH [OF pre, of "rdy @ [t]"] obtain ind' where
      r: "release_neighbors tbi ns (?ind, rdy @ [t])
           = Inr (ind', (rdy @ [t]) @ map (\<lambda>n. the (map_of tbi n))
                    (filter (\<lambda>n. map_of ?ind n = Some (int (count_list ns n))) (remdups ns)))"
      and k: "map fst ind' = map fst ?ind"
      and m: "\<forall>k. map_of ind' k = map_option (\<lambda>w. w - int (count_list ns k)) (map_of ?ind k)"
      by blast
    have flt: "filter (\<lambda>n. map_of ?ind n = Some (int (count_list ns n))) (remdups ns)
             = filter (\<lambda>n. map_of ind n = Some (int (count_list (nb # ns) n))) (remdups ns)"
      using notin by (intro filter_cong refl) (auto simp: update_conv')
    have step: "release_neighbors tbi (nb # ns) (ind, rdy) = release_neighbors tbi ns (?ind, rdy @ [t])"
      using v t True by simp
    have "release_neighbors tbi (nb # ns) (ind, rdy)
           = Inr (ind', rdy @ map (\<lambda>n. the (map_of tbi n))
                    (filter (\<lambda>n. map_of ind n = Some (int (count_list (nb # ns) n))) (remdups (nb # ns))))"
    proof -
      have "count_list (nb # ns) nb = 1"
        using notin by simp
      then have hd_in: "map_of ind nb = Some (int (count_list (nb # ns) nb))"
        using v v1 by (simp only: of_nat_1)
      have tgt: "filter (\<lambda>n. map_of ind n = Some (int (count_list (nb # ns) n))) (remdups (nb # ns))
              = nb # filter (\<lambda>n. map_of ind n = Some (int (count_list (nb # ns) n))) (remdups ns)"
        using notin hd_in by (simp del: count_list.simps)
      show ?thesis
        unfolding step r flt tgt
        by (simp add: t del: count_list.simps release_neighbors.simps)
    qed
    then show ?thesis using k keys m vals by (auto simp del: count_list.simps)
  next
    case False
    from Cons.IH [OF pre, of rdy] obtain ind' where
      r: "release_neighbors tbi ns (?ind, rdy)
           = Inr (ind', rdy @ map (\<lambda>n. the (map_of tbi n))
                    (filter (\<lambda>n. map_of ?ind n = Some (int (count_list ns n))) (remdups ns)))"
      and k: "map fst ind' = map fst ?ind"
      and m: "\<forall>k. map_of ind' k = map_option (\<lambda>w. w - int (count_list ns k)) (map_of ?ind k)"
      by blast
    have flt: "filter (\<lambda>n. map_of ?ind n = Some (int (count_list ns n))) (remdups ns)
             = filter (\<lambda>n. map_of ind n = Some (int (count_list (nb # ns) n))) (remdups ns)"
      using v by (intro filter_cong refl) (auto simp: update_conv')
    have step: "release_neighbors tbi (nb # ns) (ind, rdy) = release_neighbors tbi ns (?ind, rdy)"
      using v False by simp
    have hd_out: "nb \<notin> set ns \<Longrightarrow> map_of ind nb \<noteq> Some (int (count_list (nb # ns) nb))"
      using v False by simp
    have "release_neighbors tbi (nb # ns) (ind, rdy)
           = Inr (ind', rdy @ map (\<lambda>n. the (map_of tbi n))
                    (filter (\<lambda>n. map_of ind n = Some (int (count_list (nb # ns) n))) (remdups (nb # ns))))"
    proof -
      have tgt: "filter (\<lambda>n. map_of ind n = Some (int (count_list (nb # ns) n))) (remdups (nb # ns))
              = filter (\<lambda>n. map_of ind n = Some (int (count_list (nb # ns) n))) (remdups ns)"
        using hd_out by (simp del: count_list.simps)
      show ?thesis
        unfolding step r flt tgt ..
    qed
    then show ?thesis using k keys m vals by (auto simp del: count_list.simps)
  qed
qed

subsection \<open>The initial ready queue\<close>

lemma initial_ready_sort_char:
  assumes "\<forall>k \<in> fst ` set ind. \<exists>t. map_of tbi k = Some t"
  shows "initial_ready_sort tbi ind
           = Inr (map (\<lambda>p. the (map_of tbi (fst p))) (filter (\<lambda>p. snd p = 0) ind))"
  using assms by (induction ind) (auto split: prod.splits)

lemma initial_ready_plan_char:
  assumes "\<forall>k \<in> fst ` set tbi. \<exists>v. map_of ind k = Some v"
  shows "initial_ready_plan ind tbi
           = Inr (map snd (filter (\<lambda>p. map_of ind (fst p) = Some 0) tbi))"
  using assms by (induction tbi) (auto split: prod.splits)

subsection \<open>Ids, remaining dependencies, the graph in closed form\<close>

lemma task_id_inj:
  "distinct (map task_id tasks) \<Longrightarrow> a \<in> set tasks \<Longrightarrow> b \<in> set tasks \<Longrightarrow>
   task_id a = task_id b \<Longrightarrow> a = b"
  by (meson distinct_map inj_onD)

lemma distinct_tasks: "distinct (map task_id tasks) \<Longrightarrow> distinct tasks"
  by (simp add: distinct_map)

lemma in_set_deps_ids: "d \<in> set (in_set_deps tasks t) \<Longrightarrow> d \<in> task_id ` set tasks"
  by (simp add: in_set_deps_def)

lemma deps_emitted_remaining: "deps_emitted tasks emitted t \<longleftrightarrow> remaining tasks emitted t = 0"
  by (simp add: deps_emitted_def remaining_def list_all_iff filter_empty_conv)

lemma deps_emitted_mono:
  "deps_emitted tasks e t \<Longrightarrow> set e \<subseteq> set e' \<Longrightarrow> deps_emitted tasks e' t"
  by (auto simp: deps_emitted_def list_all_iff)

lemma filter_notin_insert:
  "c \<notin> A \<Longrightarrow> length (filter (\<lambda>d. d \<notin> A) xs)
     = length (filter (\<lambda>d. d \<notin> insert c A) xs) + count_list xs c"
  by (induction xs) auto

lemma remaining_snoc:
  "task_id c \<notin> task_id ` set emitted \<Longrightarrow>
   remaining tasks emitted t
     = remaining tasks (emitted @ [c]) t + count_list (in_set_deps tasks t) (task_id c)"
  using filter_notin_insert [of "task_id c" "task_id ` set emitted" "in_set_deps tasks t"]
  by (simp add: remaining_def)

lemma remaining_Nil: "remaining tasks [] t = length (in_set_deps tasks t)"
  by (simp add: remaining_def)

lemma count_list_replicate: "count_list (replicate n x) y = (if x = y then n else 0)"
  by (induction n) auto

lemma count_groups_notin:
  "k \<notin> key ` set ts \<Longrightarrow> count_list (concat (map (\<lambda>u. replicate (f u) (key u)) ts)) k = 0"
  by (induction ts) (auto simp: count_list_replicate)

lemma count_groups:
  "distinct (map key ts) \<Longrightarrow> t \<in> set ts \<Longrightarrow>
   count_list (concat (map (\<lambda>u. replicate (f u) (key u)) ts)) (key t) = f t"
proof (induction ts)
  case Nil
  then show ?case by simp
next
  case (Cons u ts)
  show ?case
  proof (cases "t = u")
    case True
    then show ?thesis using Cons.prems(1) by (simp add: count_list_replicate count_groups_notin)
  next
    case False
    then have "t \<in> set ts" using Cons.prems(2) by simp
    moreover from this have "key u \<noteq> key t" using Cons.prems(1) by auto
    ultimately show ?thesis using Cons by (simp add: count_list_replicate)
  qed
qed

lemma set_groups:
  "set (concat (map (\<lambda>u. replicate (f u) (key u)) ts)) = key ` {u \<in> set ts. 0 < f u}"
  by (induction ts) auto

lemma remdups_replicate_app:
  "x \<notin> set ys \<Longrightarrow> remdups (replicate n x @ ys) = (if n = 0 then remdups ys else x # remdups ys)"
  by (induction n) auto

lemma remdups_groups:
  "distinct (map key ts) \<Longrightarrow>
   remdups (concat (map (\<lambda>u. replicate (f u) (key u)) ts)) = map key (filter (\<lambda>u. 0 < f u) ts)"
proof (induction ts)
  case Nil
  then show ?case by simp
next
  case (Cons u ts)
  have "key u \<notin> set (concat (map (\<lambda>u. replicate (f u) (key u)) ts))"
    using Cons.prems by (auto simp: set_groups)
  then show ?case using Cons by (simp add: remdups_replicate_app)
qed

lemma count_graph_of:
  "distinct (map task_id tasks) \<Longrightarrow> t \<in> set tasks \<Longrightarrow>
   count_list (graph_of tasks d) (task_id t) = count_list (in_set_deps tasks t) d"
  unfolding graph_of_def by (rule count_groups)

lemma set_graph_of:
  "set (graph_of tasks d) = task_id ` {u \<in> set tasks. 0 < count_list (in_set_deps tasks u) d}"
  unfolding graph_of_def by (rule set_groups)

lemma remdups_graph_of:
  "distinct (map task_id tasks) \<Longrightarrow>
   remdups (graph_of tasks d)
     = map task_id (filter (\<lambda>u. 0 < count_list (in_set_deps tasks u) d) tasks)"
  unfolding graph_of_def by (rule remdups_groups)

subsection \<open>The state before the while loop\<close>

lemma zero_indegree_tasks:
  "zero_indegree (map (\<lambda>t. (task_id t, t)) tasks) = map (\<lambda>t. (task_id t, 0)) tasks"
  by (simp add: zero_indegree_def)

lemma in_set_deps_map_of:
  "filter (\<lambda>d. map_of (map (\<lambda>t. (task_id t, t)) tasks) d \<noteq> None) (dependencies t)
     = in_set_deps tasks t"
  by (simp add: in_set_deps_def map_of_tasks_None)

lemma build_graph_tasks:
  assumes "distinct (map task_id tasks)"
  shows "\<exists>ind. build_graph (map (\<lambda>t. (task_id t, t)) tasks) tasks
                  (\<lambda>k. [], zero_indegree (map (\<lambda>t. (task_id t, t)) tasks))
             = Inr (graph_of tasks, ind)
           \<and> map fst ind = map task_id tasks
           \<and> (\<forall>t \<in> set tasks. map_of ind (task_id t) = Some (int (remaining tasks [] t)))"
proof -
  let ?tbi = "map (\<lambda>t. (task_id t, t)) tasks"
  let ?z = "map (\<lambda>t. (task_id t, 0::int)) tasks"
  have keys: "task_id ` set tasks \<subseteq> fst ` set ?z"
    by force
  have z0: "map_of ?z (task_id t) = Some 0" if "t \<in> set tasks" for t
    using that by (induction tasks) auto
  from build_graph_char [OF assms keys, of ?tbi "\<lambda>k. []"] obtain ind where
    b: "build_graph ?tbi tasks (\<lambda>k. [], ?z)
         = Inr (\<lambda>d. [] @ concat (map (\<lambda>t. replicate
                  (count_list (filter (\<lambda>d. map_of ?tbi d \<noteq> None) (dependencies t)) d) (task_id t)) tasks), ind)"
    and k: "map fst ind = map fst ?z"
    and v: "\<forall>t \<in> set tasks. map_of ind (task_id t)
               = Some (the (map_of ?z (task_id t))
                        + int (length (filter (\<lambda>d. map_of ?tbi d \<noteq> None) (dependencies t))))"
    by blast
  have g: "(\<lambda>d. [] @ concat (map (\<lambda>t. replicate
                  (count_list (filter (\<lambda>d. map_of ?tbi d \<noteq> None) (dependencies t)) d) (task_id t)) tasks))
           = graph_of tasks"
    unfolding in_set_deps_map_of graph_of_def by simp
  have "build_graph ?tbi tasks (\<lambda>k. [], zero_indegree ?tbi) = Inr (graph_of tasks, ind)"
    using b unfolding g zero_indegree_tasks .
  moreover have "map fst ind = map task_id tasks"
    using k by (simp add: comp_def)
  moreover have "\<forall>t \<in> set tasks. map_of ind (task_id t) = Some (int (remaining tasks [] t))"
    using v z0 unfolding in_set_deps_map_of by (simp add: remaining_Nil)
  ultimately show ?thesis by blast
qed

subsection \<open>Order of the ready queue among equal priorities\<close>

lemma precedes_Cons: "precedes (x # xs) a b \<longleftrightarrow> x \<noteq> b \<and> (a = x \<or> precedes xs a b)"
  by (cases "x = b") (auto simp: precedes_def)

lemma precedes_Nil: "\<not> precedes [] a b"
  by (simp add: precedes_def)

lemma precedes_asym: "precedes xs a b \<Longrightarrow> \<not> precedes xs b a"
  by (induction xs) (auto simp: precedes_Cons precedes_Nil)

lemma takeWhile_neq_nth:
  assumes "distinct xs" and "j < length xs"
  shows "takeWhile (\<lambda>z. z \<noteq> xs ! j) xs = take j xs"
proof (rule takeWhile_eq_take_P_nth)
  fix i assume "i < j" "i < length xs"
  then show "xs ! i \<noteq> xs ! j"
    using assms by (simp add: nth_eq_iff_index_eq)
next
  show "\<not> xs ! j \<noteq> xs ! j" by simp
qed

lemma sorted_wrt_precedes: "distinct xs \<Longrightarrow> sorted_wrt (precedes xs) xs"
proof -
  assume d: "distinct xs"
  have "precedes xs (xs ! i) (xs ! j)" if "i < j" "j < length xs" for i j
  proof -
    have "xs ! i = take j xs ! i" using that by simp
    moreover have "i < length (take j xs)" using that by simp
    ultimately have "xs ! i \<in> set (take j xs)" by (metis nth_mem)
    then show ?thesis using d that by (simp add: precedes_def takeWhile_neq_nth)
  qed
  then show ?thesis by (simp add: sorted_wrt_iff_nth_less)
qed

lemma ready_earlier_iff:
  "ready_earlier tasks e a b \<longleftrightarrow>
     (\<exists>k \<le> length e. deps_emitted tasks (take k e) a \<and> \<not> deps_emitted tasks (take k e) b)"
  by (auto simp: ready_earlier_def list_ex_iff less_Suc_eq_le simp del: upt_Suc)

lemma deps_emitted_take:
  "deps_emitted tasks (take k e) t \<Longrightarrow> deps_emitted tasks e t"
  by (erule deps_emitted_mono) (rule set_take_subset)

lemma ready_earlier_snoc_both:
  assumes "deps_emitted tasks e a" and "deps_emitted tasks e b"
  shows "ready_earlier tasks (e @ [c]) a b \<longleftrightarrow> ready_earlier tasks e a b"
proof
  assume "ready_earlier tasks (e @ [c]) a b"
  then obtain k where k: "k \<le> Suc (length e)" "deps_emitted tasks (take k (e @ [c])) a"
    "\<not> deps_emitted tasks (take k (e @ [c])) b"
    by (auto simp: ready_earlier_iff)
  have "k \<le> length e"
  proof (rule ccontr)
    assume "\<not> k \<le> length e"
    then have "k = Suc (length e)" using k(1) by simp
    then have "deps_emitted tasks (take k (e @ [c])) b"
      using assms(2) by (auto elim: deps_emitted_mono)
    then show False using k(3) by simp
  qed
  then show "ready_earlier tasks e a b"
    using k by (auto simp: ready_earlier_iff)
next
  assume "ready_earlier tasks e a b"
  then obtain k where "k \<le> length e" "deps_emitted tasks (take k e) a"
    "\<not> deps_emitted tasks (take k e) b"
    by (auto simp: ready_earlier_iff)
  then show "ready_earlier tasks (e @ [c]) a b"
    unfolding ready_earlier_iff by (intro exI [of _ k]) simp
qed

lemma ready_earlier_snoc_first:
  assumes "deps_emitted tasks e a" and "\<not> deps_emitted tasks e b"
  shows "ready_earlier tasks (e @ [c]) a b"
  unfolding ready_earlier_iff using assms by (intro exI [of _ "length e"]) simp

lemma ready_earlier_snoc_neither:
  assumes "\<not> deps_emitted tasks e a" and "deps_emitted tasks (e @ [c]) b"
  shows "\<not> ready_earlier tasks (e @ [c]) a b"
proof
  assume "ready_earlier tasks (e @ [c]) a b"
  then obtain k where k: "k \<le> Suc (length e)" "deps_emitted tasks (take k (e @ [c])) a"
    "\<not> deps_emitted tasks (take k (e @ [c])) b"
    by (auto simp: ready_earlier_iff)
  show False
  proof (cases "k \<le> length e")
    case True
    then have "deps_emitted tasks (take k e) a" using k(2) by simp
    then show False using assms(1) by (auto dest: deps_emitted_take)
  next
    case False
    then have "k = Suc (length e)" using k(1) by simp
    then show False using k(3) assms(2) by simp
  qed
qed

lemma queue_before_snoc_both:
  assumes "deps_emitted tasks e a" and "deps_emitted tasks e b"
  shows "queue_before tasks (e @ [c]) a b \<longleftrightarrow> queue_before tasks e a b"
  using assms by (simp add: queue_before_def ready_earlier_snoc_both)

subsection \<open>One iteration of the while loop\<close>

lemma loop_inv_head:
  assumes "distinct (map task_id tasks)" and "loop_inv policy tasks (c # rest) emitted ind"
  shows "eligible tasks emitted c" and "c \<in> set tasks" and "c \<notin> set emitted"
    and "task_id c \<notin> task_id ` set emitted" and "remaining tasks emitted c = 0"
proof -
  show el: "eligible tasks emitted c"
    using assms(2) by (auto simp: loop_inv_def)
  then show c: "c \<in> set tasks" and n: "c \<notin> set emitted"
    by (simp_all add: eligible_def)
  show "task_id c \<notin> task_id ` set emitted"
  proof
    assume "task_id c \<in> task_id ` set emitted"
    then obtain e where e: "e \<in> set emitted" "task_id c = task_id e" by auto
    then have "e \<in> set tasks" using assms(2) by (auto simp: loop_inv_def)
    with task_id_inj [OF assms(1) c this] e n show False by simp
  qed
  show "remaining tasks emitted c = 0"
    using el by (simp add: eligible_def deps_emitted_remaining)
qed

lemma release_step:
  assumes d: "distinct (map task_id tasks)" and inv: "loop_inv policy tasks (c # rest) emitted ind"
  shows "\<exists>ind'. release_neighbors (map (\<lambda>t. (task_id t, t)) tasks) (graph_of tasks (task_id c)) (ind, rest)
            = Inr (ind', rest @ filter (\<lambda>u. 0 < count_list (in_set_deps tasks u) (task_id c)
                                          \<and> remaining tasks (emitted @ [c]) u = 0) tasks)
          \<and> (\<forall>t \<in> set tasks. map_of ind' (task_id t) = Some (int (remaining tasks (emitted @ [c]) t)))"
proof -
  let ?tbi = "map (\<lambda>t. (task_id t, t)) tasks"
  let ?nbs = "graph_of tasks (task_id c)"
  let ?cnt = "\<lambda>u. count_list (in_set_deps tasks u) (task_id c)"
  let ?e' = "emitted @ [c]"
  note h = loop_inv_head [OF d inv]
  have ind: "map_of ind (task_id u) = Some (int (remaining tasks emitted u))" if "u \<in> set tasks" for u
    using inv that by (simp add: loop_inv_def)
  have rs: "remaining tasks emitted u = remaining tasks ?e' u + ?cnt u" for u
    using h(4) by (rule remaining_snoc)
  have cn: "count_list ?nbs (task_id u) = ?cnt u" if "u \<in> set tasks" for u
    using d that by (rule count_graph_of)
  have pre: "\<forall>n \<in> set ?nbs. \<exists>v t. map_of ind n = Some v \<and> int (count_list ?nbs n) \<le> v
                \<and> map_of ?tbi n = Some t"
  proof
    fix n assume "n \<in> set ?nbs"
    then obtain u where u: "u \<in> set tasks" "n = task_id u"
      by (auto simp: set_graph_of)
    have "int (count_list ?nbs n) \<le> int (remaining tasks emitted u)"
      using cn [OF u(1)] rs [of u] u(2) by simp
    then show "\<exists>v t. map_of ind n = Some v \<and> int (count_list ?nbs n) \<le> v \<and> map_of ?tbi n = Some t"
      using ind [OF u(1)] map_of_tasks [OF d u(1)] u(2) by simp
  qed
  from release_neighbors_char [OF pre, of rest] obtain ind' where
    r: "release_neighbors ?tbi ?nbs (ind, rest)
          = Inr (ind', rest @ map (\<lambda>n. the (map_of ?tbi n))
                   (filter (\<lambda>n. map_of ind n = Some (int (count_list ?nbs n))) (remdups ?nbs)))"
    and m: "\<forall>k. map_of ind' k = map_option (\<lambda>v. v - int (count_list ?nbs k)) (map_of ind k)"
    by blast
  have "map (\<lambda>n. the (map_of ?tbi n))
          (filter (\<lambda>n. map_of ind n = Some (int (count_list ?nbs n))) (remdups ?nbs))
        = map (\<lambda>u. the (map_of ?tbi (task_id u)))
            (filter (\<lambda>u. 0 < ?cnt u \<and> map_of ind (task_id u) = Some (int (count_list ?nbs (task_id u)))) tasks)"
    by (simp add: remdups_graph_of [OF d] filter_map comp_def)
  also have "\<dots> = filter (\<lambda>u. 0 < ?cnt u \<and> map_of ind (task_id u) = Some (int (count_list ?nbs (task_id u)))) tasks"
    by (rule map_idI) (simp add: map_of_tasks [OF d])
  also have "\<dots> = filter (\<lambda>u. 0 < ?cnt u \<and> remaining tasks ?e' u = 0) tasks"
  proof (rule filter_cong [OF refl])
    fix u assume u: "u \<in> set tasks"
    show "(0 < ?cnt u \<and> map_of ind (task_id u) = Some (int (count_list ?nbs (task_id u))))
            = (0 < ?cnt u \<and> remaining tasks ?e' u = 0)"
      using ind [OF u] cn [OF u] rs [of u] by auto
  qed
  finally have pushed: "map (\<lambda>n. the (map_of ?tbi n))
          (filter (\<lambda>n. map_of ind n = Some (int (count_list ?nbs n))) (remdups ?nbs))
        = filter (\<lambda>u. 0 < ?cnt u \<and> remaining tasks ?e' u = 0) tasks" .
  have "\<forall>t \<in> set tasks. map_of ind' (task_id t) = Some (int (remaining tasks ?e' t))"
  proof
    fix t assume t: "t \<in> set tasks"
    show "map_of ind' (task_id t) = Some (int (remaining tasks ?e' t))"
      using m ind [OF t] cn [OF t] rs [of t] by simp
  qed
  then show ?thesis using r pushed by simp
qed

lemma sorted_reverse_if:
  "(if xs \<noteq> [] then sorted_reverse key xs else xs) = sorted_reverse key xs"
  by (simp add: sorted_reverse_def)

lemma sorted_wrt_filter_Cons:
  "sorted_wrt P (filter Q (x # xs)) \<Longrightarrow> sorted_wrt P (filter Q xs)"
  by (cases "Q x") simp_all

lemma inv_step:
  assumes d: "distinct (map task_id tasks)"
    and inv: "loop_inv policy tasks (c # rest) emitted ind"
    and ind': "\<forall>t \<in> set tasks. map_of ind' (task_id t) = Some (int (remaining tasks (emitted @ [c]) t))"
  shows "loop_inv policy tasks
           (sorted_reverse (priority policy)
              (rest @ filter (\<lambda>u. 0 < count_list (in_set_deps tasks u) (task_id c)
                                  \<and> remaining tasks (emitted @ [c]) u = 0) tasks))
           (emitted @ [c]) ind'"
proof -
  let ?cnt = "\<lambda>u. count_list (in_set_deps tasks u) (task_id c)"
  let ?e' = "emitted @ [c]"
  let ?Q = "\<lambda>u. 0 < ?cnt u \<and> remaining tasks ?e' u = 0"
  let ?pushed = "filter ?Q tasks"
  note h = loop_inv_head [OF d inv]
  have rs: "remaining tasks emitted u = remaining tasks ?e' u + ?cnt u" for u
    using h(4) by (rule remaining_snoc)
  have de: "distinct emitted" and sub: "set emitted \<subseteq> set tasks"
    and closed: "\<forall>t \<in> set emitted. deps_emitted tasks emitted t"
    and dr: "distinct (c # rest)"
    and rdy: "set (c # rest) = {t. eligible tasks emitted t}"
    and tie: "\<And>p. sorted_wrt (queue_before tasks emitted) (filter (\<lambda>t. priority policy t = p) (c # rest))"
    using inv by (simp_all add: loop_inv_def)
  have rest_el: "eligible tasks emitted u" and rest_ne: "u \<noteq> c" if "u \<in> set rest" for u
    using that rdy dr by auto
  have rest_rem: "remaining tasks emitted u = 0" if "u \<in> set rest" for u
    using rest_el [OF that] by (simp add: eligible_def deps_emitted_remaining)
  have pushed_rem: "0 < remaining tasks emitted u" if "?Q u" for u
    using that rs [of u] by simp
  have pushed_new: "\<not> deps_emitted tasks emitted u" and pushed_now: "deps_emitted tasks ?e' u"
    if "?Q u" for u
    using that pushed_rem [OF that] by (simp_all add: deps_emitted_remaining)
  have c1: "distinct ?e'"
    using de h(3) by simp
  have c2: "set ?e' \<subseteq> set tasks"
    using sub h(2) by simp
  have c3: "\<forall>t \<in> set ?e'. deps_emitted tasks ?e' t"
  proof
    fix t assume "t \<in> set ?e'"
    then have "deps_emitted tasks emitted t"
      using closed h(1) by (auto simp: eligible_def)
    then show "deps_emitted tasks ?e' t"
      by (rule deps_emitted_mono) auto
  qed
  have c4: "distinct (rest @ ?pushed)"
  proof -
    have "set rest \<inter> set ?pushed = {}"
      using rest_rem pushed_rem by fastforce
    then show ?thesis
      using dr distinct_tasks [OF d] by simp
  qed
  have c5: "set (rest @ ?pushed) = {t. eligible tasks ?e' t}"
  proof (intro set_eqI iffI)
    fix u assume "u \<in> set (rest @ ?pushed)"
    then consider "u \<in> set rest" | "u \<in> set tasks" "?Q u" by auto
    then have "eligible tasks ?e' u"
    proof cases
      case 1
      have "remaining tasks ?e' u = 0"
        using rest_rem [OF 1] rs [of u] by simp
      then show ?thesis
        using rest_el [OF 1] rest_ne [OF 1] by (simp add: eligible_def deps_emitted_remaining)
    next
      case 2
      have "u \<notin> set emitted"
        using closed pushed_new [OF 2(2)] by blast
      moreover have "u \<noteq> c"
        using pushed_rem [OF 2(2)] h(5) by auto
      ultimately show ?thesis
        using 2 by (simp add: eligible_def deps_emitted_remaining)
    qed
    then show "u \<in> {t. eligible tasks ?e' t}" by simp
  next
    fix u assume "u \<in> {t. eligible tasks ?e' t}"
    then have u: "u \<in> set tasks" "u \<notin> set emitted" "u \<noteq> c" "remaining tasks ?e' u = 0"
      by (simp_all add: eligible_def deps_emitted_remaining)
    show "u \<in> set (rest @ ?pushed)"
    proof (cases "remaining tasks emitted u = 0")
      case True
      then have "eligible tasks emitted u"
        using u by (simp add: eligible_def deps_emitted_remaining)
      then have "u \<in> set (c # rest)" using rdy by simp
      then show ?thesis using u(3) by simp
    next
      case False
      then have "?Q u" using rs [of u] u(4) by simp
      then show ?thesis using u(1) by simp
    qed
  qed
  have c7: "sorted_wrt (queue_before tasks ?e') (filter (\<lambda>t. priority policy t = p) (rest @ ?pushed))" for p
  proof -
    let ?F = "filter (\<lambda>t. priority policy t = p)"
    have "sorted_wrt (queue_before tasks emitted) (?F rest)"
      using tie [of p] by (rule sorted_wrt_filter_Cons)
    then have a: "sorted_wrt (queue_before tasks ?e') (?F rest)"
    proof (rule sorted_wrt_mono_rel [rotated])
      fix x y assume "x \<in> set (?F rest)" "y \<in> set (?F rest)" "queue_before tasks emitted x y"
      then show "queue_before tasks ?e' x y"
        using rest_el by (simp add: queue_before_snoc_both eligible_def)
    qed
    have "sorted_wrt (precedes tasks) (?F ?pushed)"
      using sorted_wrt_precedes [OF distinct_tasks [OF d]] by (intro sorted_wrt_filter)
    then have b: "sorted_wrt (queue_before tasks ?e') (?F ?pushed)"
    proof (rule sorted_wrt_mono_rel [rotated])
      fix x y assume "x \<in> set (?F ?pushed)" "y \<in> set (?F ?pushed)" "precedes tasks x y"
      then show "queue_before tasks ?e' x y"
        using ready_earlier_snoc_neither [of tasks emitted y c x] pushed_new pushed_now
        by (simp add: queue_before_def)
    qed
    have "queue_before tasks ?e' x y" if "x \<in> set (?F rest)" "y \<in> set (?F ?pushed)" for x y
    proof -
      have "deps_emitted tasks emitted x"
        using that(1) rest_el by (simp add: eligible_def)
      moreover have "\<not> deps_emitted tasks emitted y"
        using that(2) pushed_new by simp
      ultimately show ?thesis
        by (simp add: queue_before_def ready_earlier_snoc_first)
    qed
    with a b show ?thesis
      by (simp add: sorted_wrt_append)
  qed
  show ?thesis
    unfolding loop_inv_def
  proof (intro conjI allI)
    show "distinct ?e'" by (rule c1)
    show "set ?e' \<subseteq> set tasks" by (rule c2)
    show "\<forall>t \<in> set ?e'. deps_emitted tasks ?e' t" by (rule c3)
    show "distinct (sorted_reverse (priority policy) (rest @ ?pushed))"
      using c4 by (simp add: sorted_reverse_def)
    show "set (sorted_reverse (priority policy) (rest @ ?pushed)) = {t. eligible tasks ?e' t}"
      using c5 by (simp add: sorted_reverse_def)
    show "sorted (map (\<lambda>t. - priority policy t) (sorted_reverse (priority policy) (rest @ ?pushed)))"
      by (simp add: sorted_reverse_def)
    show "sorted_wrt (queue_before tasks ?e')
            (filter (\<lambda>t. priority policy t = p) (sorted_reverse (priority policy) (rest @ ?pushed)))" for p
      using c7 [of p] by (simp only: sorted_reverse_stable)
    show "\<forall>t \<in> set tasks. map_of ind' (task_id t) = Some (int (remaining tasks ?e' t))"
      by (rule ind')
  qed
qed

lemma head_step_ok:
  assumes "loop_inv policy tasks (c # rest) emitted ind"
  shows "step_ok policy tasks emitted c"
proof -
  have rdy: "set (c # rest) = {t. eligible tasks emitted t}"
    and srt: "sorted (map (\<lambda>t. - priority policy t) (c # rest))"
    and ties: "\<forall>p. sorted_wrt (queue_before tasks emitted)
                (filter (\<lambda>t. priority policy t = p) (c # rest))"
    using assms unfolding loop_inv_def by blast+
  from ties have tie: "sorted_wrt (queue_before tasks emitted)
                (filter (\<lambda>t. priority policy t = priority policy c) (c # rest))"
    by (rule spec)
  have "eligible tasks emitted c"
    using rdy by auto
  moreover have "priority policy u \<le> priority policy c
      \<and> (u \<noteq> c \<and> priority policy u = priority policy c \<longrightarrow> queue_before tasks emitted c u)"
    if "eligible tasks emitted u" for u
  proof -
    have u: "u = c \<or> u \<in> set rest"
      using that rdy by auto
    then have "priority policy u \<le> priority policy c"
      using srt by auto
    moreover have "queue_before tasks emitted c u"
      if "u \<noteq> c" "priority policy u = priority policy c"
      using tie u that by simp
    ultimately show ?thesis by simp
  qed
  ultimately show ?thesis
    by (simp add: step_ok_def)
qed

lemma plan_loop_correct:
  assumes d: "distinct (map task_id tasks)"
    and "tbi = map (\<lambda>t. (task_id t, t)) tasks" and "graph = graph_of tasks"
    and "loop_inv policy tasks ready emitted ind"
  shows "\<exists>res. plan_loop policy tbi graph ready emitted ind = Inr res
          \<and> take (length emitted) res = emitted
          \<and> (\<forall>k. length emitted \<le> k \<and> k < length res \<longrightarrow> step_ok policy tasks (take k res) (res ! k))
          \<and> (\<forall>t. \<not> eligible tasks res t)"
  using assms(2-)
proof (induction policy tbi graph ready emitted ind rule: plan_loop.induct)
  case (1 policy tbi graph plan ind)
  then have "\<forall>t. \<not> eligible tasks plan t"
    by (simp add: loop_inv_def)
  then show ?case by auto
next
  case (2 policy tbi graph c rest plan ind)
  let ?pushed = "filter (\<lambda>u. 0 < count_list (in_set_deps tasks u) (task_id c)
                             \<and> remaining tasks (plan @ [c]) u = 0) tasks"
  let ?ready' = "rest @ ?pushed"
  note inv = "2.prems"(3)
  from release_step [OF d inv] obtain ind' where
    r: "release_neighbors tbi (graph (task_id c)) (ind, rest) = Inr (ind', ?ready')"
    and m: "\<forall>t \<in> set tasks. map_of ind' (task_id t) = Some (int (remaining tasks (plan @ [c]) t))"
    unfolding "2.prems"(1,2) by blast
  have inv': "loop_inv policy tasks
                (if ?ready' \<noteq> [] then sorted_reverse (priority policy) ?ready' else ?ready')
                (plan @ [c]) ind'"
    unfolding sorted_reverse_if by (rule inv_step [OF d inv m])
  from "2.IH" [OF r refl "2.prems"(1,2) inv'] obtain res where
    res: "plan_loop policy tbi graph
            (if ?ready' \<noteq> [] then sorted_reverse (priority policy) ?ready' else ?ready')
            (plan @ [c]) ind' = Inr res"
    and pre: "take (length (plan @ [c])) res = plan @ [c]"
    and ok: "\<forall>k. length (plan @ [c]) \<le> k \<and> k < length res \<longrightarrow> step_ok policy tasks (take k res) (res ! k)"
    and fin: "\<forall>t. \<not> eligible tasks res t"
    by blast
  have run: "plan_loop policy tbi graph (c # rest) plan ind = Inr res"
    using r res by simp
  have len: "length plan < length res"
  proof -
    have "length (take (length (plan @ [c])) res) = Suc (length plan)"
      using pre by simp
    then show ?thesis by simp
  qed
  have tk: "take (length plan) res = plan"
  proof -
    have "take (length plan) (take (length (plan @ [c])) res) = take (length plan) (plan @ [c])"
      using pre by simp
    then show ?thesis by simp
  qed
  have nth: "res ! length plan = c"
  proof -
    have "take (length (plan @ [c])) res ! length plan = (plan @ [c]) ! length plan"
      using pre by simp
    then show ?thesis by simp
  qed
  have "step_ok policy tasks (take k res) (res ! k)" if "length plan \<le> k" "k < length res" for k
  proof (cases "k = length plan")
    case True
    then show ?thesis using head_step_ok [OF inv] tk nth by simp
  next
    case False
    then show ?thesis using that ok by simp
  qed
  then show ?case using run tk fin by blast
qed

subsection \<open>From the input to the first iteration\<close>

lemma alist_from_keys:
  "map fst al = map key ts \<Longrightarrow> distinct (map key ts) \<Longrightarrow>
   \<forall>t \<in> set ts. map_of al (key t) = Some (f t) \<Longrightarrow> al = map (\<lambda>t. (key t, f t)) ts"
proof (induction ts arbitrary: al)
  case Nil
  then show ?case by simp
next
  case (Cons t ts)
  then obtain p al' where al: "al = p # al'" by (cases al) auto
  with Cons.prems have p: "fst p = key t" and k: "map fst al' = map key ts" by auto
  from Cons.prems(3) al p have v: "snd p = f t" by simp
  have "\<forall>u \<in> set ts. map_of al' (key u) = Some (f u)"
  proof
    fix u assume u: "u \<in> set ts"
    then have "key u \<noteq> key t" using Cons.prems(2) by (metis distinct.simps(2) imageI list.simps(9) set_map)
    then show "map_of al' (key u) = Some (f u)"
      using Cons.prems(3) al p u by (cases p) auto
  qed
  with Cons.IH [OF k] Cons.prems(2) have "al' = map (\<lambda>t. (key t, f t)) ts" by simp
  then show ?case using al p v by (cases p) simp
qed

lemma priority_flat: "priority flat_policy t = 0"
  by (simp add: priority_def get_priority_for_test_type_def flat_policy_def)

lemma sorted_reverse_flat: "sorted_reverse (priority flat_policy) xs = xs"
  by (simp add: sorted_reverse_def priority_flat sort_key_const)

lemma sort_loop_flat:
  "sort_loop tbi graph ready ordered ind = plan_loop flat_policy tbi graph ready ordered ind"
  by (induction tbi graph ready ordered ind rule: sort_loop.induct)
     (simp_all add: sorted_reverse_flat split: sum.splits)

lemma initial_inv:
  assumes d: "distinct (map task_id tasks)"
    and ind: "\<forall>t \<in> set tasks. map_of ind (task_id t) = Some (int (remaining tasks [] t))"
  shows "loop_inv policy tasks
           (sorted_reverse (priority policy) (filter (\<lambda>t. remaining tasks [] t = 0) tasks)) [] ind"
  unfolding loop_inv_def
proof (intro conjI allI)
  let ?roots = "filter (\<lambda>t. remaining tasks [] t = 0) tasks"
  show "distinct (sorted_reverse (priority policy) ?roots)"
    using distinct_tasks [OF d] by (simp add: sorted_reverse_def)
  show "set (sorted_reverse (priority policy) ?roots) = {t. eligible tasks [] t}"
    by (auto simp: sorted_reverse_def eligible_def deps_emitted_remaining)
  show "sorted (map (\<lambda>t. - priority policy t) (sorted_reverse (priority policy) ?roots))"
    by (simp add: sorted_reverse_def)
  show "sorted_wrt (queue_before tasks [])
          (filter (\<lambda>t. priority policy t = p) (sorted_reverse (priority policy) ?roots))" for p
  proof -
    have "sorted_wrt (precedes tasks) (filter (\<lambda>t. priority policy t = p) ?roots)"
      using sorted_wrt_precedes [OF distinct_tasks [OF d]] by (intro sorted_wrt_filter)
    then have "sorted_wrt (queue_before tasks []) (filter (\<lambda>t. priority policy t = p) ?roots)"
    proof (rule sorted_wrt_mono_rel [rotated])
      fix x y assume "x \<in> set (filter (\<lambda>t. priority policy t = p) ?roots)"
        "y \<in> set (filter (\<lambda>t. priority policy t = p) ?roots)" "precedes tasks x y"
      then show "queue_before tasks [] x y"
        by (simp add: queue_before_def ready_earlier_iff deps_emitted_remaining)
    qed
    then show ?thesis by (simp only: sorted_reverse_stable)
  qed
  show "\<forall>t \<in> set tasks. map_of ind (task_id t) = Some (int (remaining tasks [] t))"
    by (rule ind)
qed simp_all

lemma generate_plan_result:
  assumes d: "distinct (map task_id tasks)"
  shows "\<exists>res. (\<forall>k < length res. step_ok policy tasks (take k res) (res ! k))
           \<and> (\<forall>t. \<not> eligible tasks res t)
           \<and> generate_plan policy tasks
               = (if length res \<noteq> length tasks
                  then Inl (ValueError (task_id ` set tasks - task_id ` set res))
                  else Inr res)"
proof -
  let ?tbi = "map (\<lambda>t. (task_id t, t)) tasks"
  let ?roots = "filter (\<lambda>t. remaining tasks [] t = 0) tasks"
  from build_graph_tasks [OF d] obtain ind where
    b: "build_graph ?tbi tasks (\<lambda>k. [], zero_indegree ?tbi) = Inr (graph_of tasks, ind)"
    and k: "map fst ind = map task_id tasks"
    and v: "\<forall>t \<in> set tasks. map_of ind (task_id t) = Some (int (remaining tasks [] t))"
    by blast
  have keys: "\<forall>k \<in> fst ` set ?tbi. \<exists>v. map_of ind k = Some v"
    using v by auto
  have "map snd (filter (\<lambda>p. map_of ind (fst p) = Some 0) ?tbi)
          = filter (\<lambda>t. map_of ind (task_id t) = Some 0) tasks"
    by (simp add: filter_map comp_def)
  also have "\<dots> = ?roots"
    using v by (intro filter_cong refl) simp
  finally have init: "initial_ready_plan ind ?tbi = Inr ?roots"
    using initial_ready_plan_char [OF keys] by simp
  from plan_loop_correct [OF d refl refl initial_inv [OF d v, of policy]] obtain res where
    run: "plan_loop policy ?tbi (graph_of tasks) (sorted_reverse (priority policy) ?roots) [] ind = Inr res"
    and ok: "\<forall>k. length ([]::TestTask list) \<le> k \<and> k < length res \<longrightarrow> step_ok policy tasks (take k res) (res ! k)"
    and fin: "\<forall>t. \<not> eligible tasks res t"
    by blast
  have "generate_plan policy tasks
          = (if length res \<noteq> length tasks
             then Inl (ValueError (task_id ` set tasks - task_id ` set res))
             else Inr res)"
    using b init run
    by (simp add: generate_plan_def tasks_by_id_of_distinct [OF d] Let_def comp_def image_image)
  then show ?thesis using ok fin by auto
qed

lemma TaskSorter_sort_flat:
  assumes d: "distinct (map task_id tasks)"
  shows "TaskSorter_sort tasks = generate_plan flat_policy tasks"
proof -
  let ?tbi = "map (\<lambda>t. (task_id t, t)) tasks"
  let ?roots = "filter (\<lambda>t. remaining tasks [] t = 0) tasks"
  from build_graph_tasks [OF d] obtain ind where
    b: "build_graph ?tbi tasks (\<lambda>k. [], zero_indegree ?tbi) = Inr (graph_of tasks, ind)"
    and k: "map fst ind = map task_id tasks"
    and v: "\<forall>t \<in> set tasks. map_of ind (task_id t) = Some (int (remaining tasks [] t))"
    by blast
  have ind: "ind = map (\<lambda>t. (task_id t, int (remaining tasks [] t))) tasks"
    using k d v by (rule alist_from_keys)
  have keys1: "\<forall>k \<in> fst ` set ?tbi. \<exists>v. map_of ind k = Some v"
    using v by auto
  have keys2: "\<forall>k \<in> fst ` set ind. \<exists>t. map_of ?tbi k = Some t"
    using map_of_tasks [OF d] by (auto simp: ind)
  have "map snd (filter (\<lambda>p. map_of ind (fst p) = Some 0) ?tbi)
          = filter (\<lambda>t. map_of ind (task_id t) = Some 0) tasks"
    by (simp add: filter_map comp_def)
  also have "\<dots> = ?roots"
    using v by (intro filter_cong refl) simp
  finally have init_plan: "initial_ready_plan ind ?tbi = Inr ?roots"
    using initial_ready_plan_char [OF keys1] by simp
  have "map (\<lambda>p. the (map_of ?tbi (fst p))) (filter (\<lambda>p. snd p = 0) ind)
          = map (\<lambda>t. the (map_of ?tbi (task_id t))) ?roots"
    by (simp add: ind filter_map comp_def)
  also have "\<dots> = ?roots"
    by (rule map_idI) (simp add: map_of_tasks [OF d])
  finally have init_sort: "initial_ready_sort ?tbi ind = Inr ?roots"
    using initial_ready_sort_char [OF keys2] by simp
  show ?thesis
    using b init_plan init_sort
    by (simp add: TaskSorter_sort_def generate_plan_def tasks_by_id_of_distinct [OF d] Let_def
        comp_def sort_loop_flat sorted_reverse_flat)
qed

subsection \<open>Sequences of emissions\<close>

lemma dependency_relation_iff:
  "(x, y) \<in> dependency_relation tasks \<longleftrightarrow>
     (\<exists>t \<in> set tasks. y = task_id t \<and> x \<in> set (in_set_deps tasks t))"
  by (auto simp: dependency_relation_def)

lemma steps_eligible:
  "\<forall>k < length res. step_ok policy tasks (take k res) (res ! k) \<Longrightarrow> k < length res \<Longrightarrow>
   eligible tasks (take k res) (res ! k)"
  by (simp add: step_ok_def)

lemma steps_subset:
  assumes "\<forall>k < length res. step_ok policy tasks (take k res) (res ! k)"
  shows "set res \<subseteq> set tasks"
proof
  fix t assume "t \<in> set res"
  then obtain k where "k < length res" "t = res ! k" by (auto simp: in_set_conv_nth)
  then show "t \<in> set tasks" using steps_eligible [OF assms] by (auto simp: eligible_def)
qed

lemma steps_distinct:
  assumes "\<forall>k < length res. step_ok policy tasks (take k res) (res ! k)"
  shows "distinct res"
proof -
  have "res ! i \<noteq> res ! j" if "i < j" "j < length res" for i j
  proof -
    have "res ! j \<notin> set (take j res)"
      using steps_eligible [OF assms that(2)] by (simp add: eligible_def)
    moreover have "res ! i \<in> set (take j res)"
      using that by (metis length_take min.absorb2 less_imp_le nth_mem nth_take)
    ultimately show ?thesis by auto
  qed
  then show ?thesis
    by (metis distinct_conv_nth nat_neq_iff)
qed

lemma steps_distinct_ids:
  assumes "distinct (map task_id tasks)"
    and "\<forall>k < length res. step_ok policy tasks (take k res) (res ! k)"
  shows "distinct (map task_id res)"
proof -
  have "inj_on task_id (set tasks)"
    using assms(1) by (simp add: distinct_map)
  then have "inj_on task_id (set res)"
    using steps_subset [OF assms(2)] by (rule inj_on_subset)
  then show ?thesis
    using steps_distinct [OF assms(2)] by (simp add: distinct_map)
qed

lemma first_index:
  assumes "distinct (map f xs)" and "k < length xs"
  shows "length (takeWhile (\<lambda>u. f u \<noteq> f (xs ! k)) xs) = k"
proof -
  have "takeWhile (\<lambda>u. f u \<noteq> f (xs ! k)) xs = take k xs"
  proof (rule takeWhile_eq_take_P_nth)
    fix i assume "i < k" "i < length xs"
    then have "map f xs ! i \<noteq> map f xs ! k"
      using assms by (simp add: nth_eq_iff_index_eq del: nth_map)
    then show "f (xs ! i) \<noteq> f (xs ! k)"
      using \<open>i < length xs\<close> assms(2) by simp
  next
    show "\<not> f (xs ! k) \<noteq> f (xs ! k)" by simp
  qed
  then show ?thesis using assms(2) by simp
qed

lemma emitted_closed:
  assumes d: "distinct (map task_id tasks)"
    and ok: "\<forall>k < length res. step_ok policy tasks (take k res) (res ! k)"
    and xy: "(x, y) \<in> dependency_relation tasks" and y: "y \<in> task_id ` set res"
  shows "x \<in> task_id ` set res"
    and "length (takeWhile (\<lambda>u. task_id u \<noteq> x) res) < length (takeWhile (\<lambda>u. task_id u \<noteq> y) res)"
proof -
  from xy obtain t where t: "t \<in> set tasks" "y = task_id t" "x \<in> set (in_set_deps tasks t)"
    by (auto simp: dependency_relation_iff)
  from y obtain k where k: "k < length res" "y = task_id (res ! k)"
    by (auto simp: in_set_conv_nth)
  have "res ! k \<in> set tasks"
    using steps_subset [OF ok] k(1) by auto
  with task_id_inj [OF d t(1)] t(2) k(2) have tk: "t = res ! k" by simp
  have "deps_emitted tasks (take k res) (res ! k)"
    using steps_eligible [OF ok k(1)] by (simp add: eligible_def)
  then have "x \<in> task_id ` set (take k res)"
    using t(3) tk by (simp add: deps_emitted_def list_all_iff)
  then obtain i where i: "i < k" "x = task_id (res ! i)"
    using k(1) by (auto simp: in_set_conv_nth)
  then show "x \<in> task_id ` set res"
    using k(1) by auto
  have "length (takeWhile (\<lambda>u. task_id u \<noteq> x) res) = i"
    unfolding i(2) using steps_distinct_ids [OF d ok] i(1) k(1) by (intro first_index) auto
  moreover have "length (takeWhile (\<lambda>u. task_id u \<noteq> y) res) = k"
    unfolding k(2) using steps_distinct_ids [OF d ok] k(1) by (intro first_index) auto
  ultimately show "length (takeWhile (\<lambda>u. task_id u \<noteq> x) res)
                     < length (takeWhile (\<lambda>u. task_id u \<noteq> y) res)"
    using i(1) by simp
qed

subsection \<open>Cycles\<close>

lemma stuck_cycle:
  assumes "finite U" and "U \<noteq> {}" and "\<forall>u \<in> U. \<exists>v \<in> U. (v, u) \<in> r"
  shows "\<exists>c \<in> U. (c, c) \<in> r\<^sup>+"
proof -
  let ?r = "r \<inter> U \<times> U"
  have "\<not> acyclic ?r"
  proof
    assume "acyclic ?r"
    moreover have "finite ?r" using assms(1) by simp
    ultimately have "wf ?r" by (simp add: finite_acyclic_wf)
    from assms(2) obtain u where "u \<in> U" by auto
    with \<open>wf ?r\<close> obtain z where z: "z \<in> U" "\<And>y. (y, z) \<in> ?r \<Longrightarrow> y \<notin> U"
      by (rule wfE_min) blast
    from assms(3) z(1) obtain v where "v \<in> U" "(v, z) \<in> r" by blast
    with z show False by blast
  qed
  then obtain c where c: "(c, c) \<in> ?r\<^sup>+"
    by (auto simp: acyclic_def)
  then have "(c, c) \<in> r\<^sup>+"
    by (rule trancl_mono) simp
  moreover have "c \<in> U"
    using c by (metis IntD2 SigmaD1 tranclD)
  ultimately show ?thesis by blast
qed

lemma unemitted_pred:
  assumes d: "distinct (map task_id tasks)" and sub: "set res \<subseteq> set tasks"
    and fin: "\<forall>t. \<not> eligible tasks res t"
    and u: "u \<in> task_id ` set tasks - task_id ` set res"
  shows "\<exists>v \<in> task_id ` set tasks - task_id ` set res. (v, u) \<in> dependency_relation tasks"
proof -
  from u obtain t where t: "t \<in> set tasks" "u = task_id t" "t \<notin> set res" by auto
  with fin have "\<not> deps_emitted tasks res t"
    by (auto simp: eligible_def)
  then obtain x where x: "x \<in> set (in_set_deps tasks t)" "x \<notin> task_id ` set res"
    by (auto simp: deps_emitted_def list_all_iff)
  then have "x \<in> task_id ` set tasks"
    by (simp add: in_set_deps_ids)
  moreover have "(x, u) \<in> dependency_relation tasks"
    using t x by (auto simp: dependency_relation_iff)
  ultimately show ?thesis using x(2) by blast
qed

lemma complete_if_acyclic:
  assumes d: "distinct (map task_id tasks)" and sub: "set res \<subseteq> set tasks"
    and fin: "\<forall>t. \<not> eligible tasks res t"
    and ac: "acyclic (dependency_relation tasks)"
  shows "set res = set tasks"
proof (rule ccontr)
  let ?U = "task_id ` set tasks - task_id ` set res"
  assume "set res \<noteq> set tasks"
  then obtain t where t: "t \<in> set tasks" "t \<notin> set res" using sub by auto
  have "task_id t \<notin> task_id ` set res"
  proof
    assume "task_id t \<in> task_id ` set res"
    then obtain e where "e \<in> set res" "task_id t = task_id e" by auto
    with task_id_inj [OF d t(1), of e] sub t(2) show False by auto
  qed
  then have "?U \<noteq> {}" using t(1) by auto
  moreover have "finite ?U" by simp
  moreover have "\<forall>u \<in> ?U. \<exists>v \<in> ?U. (v, u) \<in> dependency_relation tasks"
    using unemitted_pred [OF d sub fin] by blast
  ultimately obtain c where "(c, c) \<in> (dependency_relation tasks)\<^sup>+"
    using stuck_cycle by blast
  then show False using ac by (simp add: acyclic_def)
qed

lemma acyclic_if_complete:
  assumes d: "distinct (map task_id tasks)"
    and ok: "\<forall>k < length res. step_ok policy tasks (take k res) (res ! k)"
    and all: "set res = set tasks"
  shows "acyclic (dependency_relation tasks)"
proof -
  let ?m = "\<lambda>i. length (takeWhile (\<lambda>u. task_id u \<noteq> i) res)"
  have "dependency_relation tasks \<subseteq> measure ?m"
  proof
    fix p assume p: "p \<in> dependency_relation tasks"
    obtain x y where xy: "p = (x, y)" by (cases p)
    with p have "y \<in> task_id ` set res"
      using all by (auto simp: dependency_relation_iff)
    from emitted_closed(2) [OF d ok _ this, of x] p xy show "p \<in> measure ?m"
      by simp
  qed
  then have "wf (dependency_relation tasks)"
    by (rule wf_subset [OF wf_measure])
  then show ?thesis by (rule wf_acyclic)
qed

lemma unemitted_eq_stuck:
  assumes d: "distinct (map task_id tasks)"
    and ok: "\<forall>k < length res. step_ok policy tasks (take k res) (res ! k)"
    and fin: "\<forall>t. \<not> eligible tasks res t"
  shows "task_id ` set tasks - task_id ` set res = stuck_ids tasks"
proof (intro set_eqI iffI)
  let ?R = "dependency_relation tasks"
  let ?U = "task_id ` set tasks - task_id ` set res"
  fix i assume i: "i \<in> ?U"
  let ?A = "{a \<in> ?U. (a, i) \<in> ?R\<^sup>*}"
  have "finite ?A" by simp
  moreover have "?A \<noteq> {}" using i by auto
  moreover have "\<forall>a \<in> ?A. \<exists>v \<in> ?A. (v, a) \<in> ?R"
  proof
    fix a assume a: "a \<in> ?A"
    then obtain v where v: "v \<in> ?U" "(v, a) \<in> ?R"
      using unemitted_pred [OF d steps_subset [OF ok] fin, of a] by blast
    then have "(v, i) \<in> ?R\<^sup>*" using a by (simp add: converse_rtrancl_into_rtrancl)
    then show "\<exists>v \<in> ?A. (v, a) \<in> ?R" using v by blast
  qed
  ultimately obtain c where "c \<in> ?A" "(c, c) \<in> ?R\<^sup>+"
    using stuck_cycle [of ?A ?R] by blast
  then show "i \<in> stuck_ids tasks"
    using i by (auto simp: stuck_ids_def)
next
  let ?R = "dependency_relation tasks"
  let ?m = "\<lambda>i. length (takeWhile (\<lambda>u. task_id u \<noteq> i) res)"
  fix i assume "i \<in> stuck_ids tasks"
  then obtain c where i: "i \<in> task_id ` set tasks" and cc: "(c, c) \<in> ?R\<^sup>+" and ci: "(c, i) \<in> ?R\<^sup>*"
    by (auto simp: stuck_ids_def)
  have up: "z \<in> task_id ` set res \<longrightarrow> c \<in> task_id ` set res" if "(c, z) \<in> ?R\<^sup>*" for z
    using that
  proof (induction rule: rtrancl_induct)
    case base
    show ?case by simp
  next
    case (step y z)
    then show ?case using emitted_closed(1) [OF d ok step.hyps(2)] by blast
  qed
  have less: "b \<in> task_id ` set res \<longrightarrow> ?m a < ?m b" if "(a, b) \<in> ?R\<^sup>+" for a b
    using that
  proof (induction rule: trancl_induct)
    case (base y)
    then show ?case using emitted_closed(2) [OF d ok] by blast
  next
    case (step y z)
    show ?case
    proof
      assume z: "z \<in> task_id ` set res"
      from emitted_closed [OF d ok step.hyps(2) z] step.IH show "?m a < ?m z"
        by simp
    qed
  qed
  have "i \<notin> task_id ` set res"
  proof
    assume "i \<in> task_id ` set res"
    with up [OF ci] have "c \<in> task_id ` set res" by simp
    with less [OF cc] show False by simp
  qed
  with i show "i \<in> task_id ` set tasks - task_id ` set res" by simp
qed

subsection \<open>What the two functions return\<close>

lemma plan_returns:
  assumes d: "distinct (map task_id tasks)" and ac: "acyclic (dependency_relation tasks)"
  shows "\<exists>res. generate_plan policy tasks = Inr res \<and> set res = set tasks \<and> distinct res
           \<and> length res = length tasks
           \<and> (\<forall>k < length res. step_ok policy tasks (take k res) (res ! k))"
proof -
  from generate_plan_result [OF d, of policy] obtain res where
    ok: "\<forall>k < length res. step_ok policy tasks (take k res) (res ! k)"
    and fin: "\<forall>t. \<not> eligible tasks res t"
    and g: "generate_plan policy tasks
               = (if length res \<noteq> length tasks
                  then Inl (ValueError (task_id ` set tasks - task_id ` set res))
                  else Inr res)"
    by blast
  have s: "set res = set tasks"
    using d steps_subset [OF ok] fin ac by (rule complete_if_acyclic)
  have dr: "distinct res" by (rule steps_distinct [OF ok])
  have "length res = length tasks"
    using s dr distinct_tasks [OF d] by (metis distinct_card)
  then show ?thesis using g s dr ok by auto
qed

lemma plan_fails:
  assumes d: "distinct (map task_id tasks)" and cyc: "\<not> acyclic (dependency_relation tasks)"
  shows "\<exists>emitted. (\<forall>k < length emitted. step_ok policy tasks (take k emitted) (emitted ! k))
           \<and> (\<forall>t. \<not> eligible tasks emitted t)
           \<and> generate_plan policy tasks
               = Inl (ValueError (task_id ` set tasks - task_id ` set emitted))"
proof -
  from generate_plan_result [OF d, of policy] obtain res where
    ok: "\<forall>k < length res. step_ok policy tasks (take k res) (res ! k)"
    and fin: "\<forall>t. \<not> eligible tasks res t"
    and g: "generate_plan policy tasks
               = (if length res \<noteq> length tasks
                  then Inl (ValueError (task_id ` set tasks - task_id ` set res))
                  else Inr res)"
    by blast
  have "length res \<noteq> length tasks"
  proof
    assume l: "length res = length tasks"
    have "card (set res) = card (set tasks)"
      using l steps_distinct [OF ok] distinct_tasks [OF d] by (simp add: distinct_card)
    then have "set res = set tasks"
      using steps_subset [OF ok] by (simp add: card_subset_eq)
    with acyclic_if_complete [OF d ok] cyc show False by simp
  qed
  then show ?thesis using g ok fin by auto
qed

lemma take_mem:
  "j < length xs \<Longrightarrow> j < k \<Longrightarrow> xs ! j \<in> set (take k xs)"
  by (metis in_set_conv_nth length_take min_less_iff_conj nth_take)

lemma take_not_mem:
  "distinct xs \<Longrightarrow> j \<le> i \<Longrightarrow> i < length xs \<Longrightarrow> xs ! i \<notin> set (take j xs)"
  by (auto simp: in_set_conv_nth nth_eq_iff_index_eq)

lemma precedes_nth:
  "distinct xs \<Longrightarrow> i < j \<Longrightarrow> j < length xs \<Longrightarrow> precedes xs (xs ! i) (xs ! j)"
  by (simp add: precedes_def takeWhile_neq_nth take_mem)

lemma deps_emitted_take_mono:
  "deps_emitted tasks (take k e) t \<Longrightarrow> k \<le> k' \<Longrightarrow> deps_emitted tasks (take k' e) t"
  by (erule deps_emitted_mono) (rule set_take_subset_set_take)

lemma ready_earlier_asym:
  assumes "ready_earlier tasks e a b"
  shows "\<not> ready_earlier tasks e b a"
proof
  assume "ready_earlier tasks e b a"
  then obtain k' where k': "deps_emitted tasks (take k' e) b" "\<not> deps_emitted tasks (take k' e) a"
    by (auto simp: ready_earlier_iff)
  from assms obtain k where k: "deps_emitted tasks (take k e) a" "\<not> deps_emitted tasks (take k e) b"
    by (auto simp: ready_earlier_iff)
  show False
  proof (cases "k \<le> k'")
    case True
    then show ?thesis using k(1) k'(2) deps_emitted_take_mono by blast
  next
    case False
    then have "k' \<le> k" by simp
    then show ?thesis using k'(1) k(2) deps_emitted_take_mono by blast
  qed
qed

lemma ready_earlier_take:
  assumes "j \<le> length e"
  shows "ready_earlier tasks (take j e) a b \<longleftrightarrow>
           (\<exists>k \<le> j. deps_emitted tasks (take k e) a \<and> \<not> deps_emitted tasks (take k e) b)"
proof -
  have "take k (take j e) = take k e" if "k \<le> j" for k
    using that by (simp add: min_absorb1)
  then show ?thesis
    using assms by (auto simp: ready_earlier_iff min_absorb2)
qed

lemma higher_first:
  assumes d: "distinct (map task_id tasks)"
    and ok: "\<forall>k < length res. step_ok policy tasks (take k res) (res ! k)"
    and fin: "\<forall>t. \<not> eligible tasks res t"
    and a: "eligible tasks (take k res) a" and b: "eligible tasks (take k res) b"
    and pr: "priority policy b < priority policy a"
  shows "precedes res a b"
proof -
  have dr: "distinct res" by (rule steps_distinct [OF ok])
  have "deps_emitted tasks res b"
    using b by (auto simp: eligible_def dest: deps_emitted_take)
  with b fin have "b \<in> set res" by (auto simp: eligible_def)
  then obtain j where j: "j < length res" "b = res ! j"
    by (metis in_set_conv_nth)
  have kj: "k \<le> j"
  proof (rule ccontr)
    assume "\<not> k \<le> j"
    then have "res ! j \<in> set (take k res)" using j(1) by (simp add: take_mem)
    then show False using b j(2) by (simp add: eligible_def)
  qed
  have "a \<in> set (take j res)"
  proof (rule ccontr)
    assume n: "a \<notin> set (take j res)"
    have "deps_emitted tasks (take j res) a"
      using a kj by (auto simp: eligible_def intro: deps_emitted_take_mono)
    then have "eligible tasks (take j res) a"
      using a n by (simp add: eligible_def)
    then have "priority policy a \<le> priority policy (res ! j)"
      using ok j(1) by (simp add: step_ok_def)
    then show False using pr j(2) by simp
  qed
  then show ?thesis
    using dr j by (simp add: precedes_def takeWhile_neq_nth)
qed

lemma ties_queue_order:
  assumes d: "distinct (map task_id tasks)"
    and ok: "\<forall>k < length res. step_ok policy tasks (take k res) (res ! k)"
    and fin: "\<forall>t. \<not> eligible tasks res t"
    and a: "a \<in> set tasks" and b: "b \<in> set res" and ne: "a \<noteq> b"
    and pr: "priority policy a = priority policy b"
    and q: "queue_before tasks res a b"
  shows "precedes res a b"
proof -
  have dr: "distinct res" by (rule steps_distinct [OF ok])
  from b obtain j where j: "j < length res" "b = res ! j"
    by (metis in_set_conv_nth)
  have "deps_emitted tasks (take j res) b"
    using steps_eligible [OF ok j(1)] j(2) by (simp add: eligible_def)
  have "deps_emitted tasks res a"
  proof (cases "ready_earlier tasks res a b")
    case True
    then show ?thesis by (auto simp: ready_earlier_iff dest: deps_emitted_take)
  next
    case False
    with q have nb: "\<not> ready_earlier tasks res b a" by (simp add: queue_before_def)
    have "deps_emitted tasks (take j res) a"
    proof (rule ccontr)
      assume "\<not> deps_emitted tasks (take j res) a"
      with \<open>deps_emitted tasks (take j res) b\<close> j(1) have "ready_earlier tasks res b a"
        unfolding ready_earlier_iff by (intro exI [of _ j]) simp
      with nb show False by simp
    qed
    then show ?thesis by (rule deps_emitted_take)
  qed
  with a fin have "a \<in> set res" by (auto simp: eligible_def)
  then obtain i where i: "i < length res" "a = res ! i"
    by (metis in_set_conv_nth)
  have "i < j"
  proof (rule ccontr)
    assume "\<not> i < j"
    then have ji: "j < i" using ne i(2) j(2) by (cases "i = j") auto
    have eb: "eligible tasks (take j res) b"
      using steps_eligible [OF ok j(1)] j(2) by simp
    then have db: "deps_emitted tasks (take j res) b" by (simp add: eligible_def)
    have na: "a \<notin> set (take j res)"
      unfolding i(2) using dr ji i(1) by (intro take_not_mem) auto
    have step: "queue_before tasks (take j res) b a" if "deps_emitted tasks (take j res) a"
    proof -
      have "eligible tasks (take j res) a"
        using that a na by (simp add: eligible_def)
      then show ?thesis
        using ok j ne pr by (auto simp: step_ok_def)
    qed
    from q consider (early) "ready_earlier tasks res a b"
      | (same) "\<not> ready_earlier tasks res b a" "precedes tasks a b"
      by (auto simp: queue_before_def)
    then show False
    proof cases
      case early
      then obtain k where k: "deps_emitted tasks (take k res) a" "\<not> deps_emitted tasks (take k res) b"
        by (auto simp: ready_earlier_iff)
      have kj: "k \<le> j"
      proof (rule ccontr)
        assume "\<not> k \<le> j"
        then have "j \<le> k" by simp
        with db k(2) deps_emitted_take_mono show False by blast
      qed
      then have da: "deps_emitted tasks (take j res) a"
        using k(1) deps_emitted_take_mono by blast
      have ab: "ready_earlier tasks (take j res) a b"
        using j(1) k kj by (auto simp: ready_earlier_take)
      from step [OF da] ab ready_earlier_asym [OF ab] show False
        by (simp add: queue_before_def)
    next
      case same
      have da: "deps_emitted tasks (take j res) a"
      proof (rule ccontr)
        assume "\<not> deps_emitted tasks (take j res) a"
        with db j(1) have "ready_earlier tasks res b a"
          unfolding ready_earlier_iff by (intro exI [of _ j]) simp
        with same(1) show False by simp
      qed
      from step [OF da] consider "ready_earlier tasks (take j res) b a" | "precedes tasks b a"
        by (auto simp: queue_before_def)
      then show False
      proof cases
        case 1
        then obtain k where "k \<le> j" "deps_emitted tasks (take k res) b"
          "\<not> deps_emitted tasks (take k res) a"
          using j(1) by (auto simp: ready_earlier_take)
        then have "ready_earlier tasks res b a"
          using j(1) unfolding ready_earlier_iff by (intro exI [of _ k]) simp
        with same(1) show False by simp
      next
        case 2
        with same(2) precedes_asym [of tasks a b] show False by simp
      qed
    qed
  qed
  then show ?thesis
    unfolding i(2) j(2) using dr j(1) by (simp add: precedes_nth)
qed

lemma plan_outcome:
  assumes d: "distinct (map task_id tasks)"
  shows "\<exists>emitted. (\<forall>k < length emitted. step_ok policy tasks (take k emitted) (emitted ! k))
           \<and> (\<forall>t. \<not> eligible tasks emitted t)
           \<and> generate_plan policy tasks
               = (if acyclic (dependency_relation tasks) then Inr emitted
                  else Inl (ValueError (task_id ` set tasks - task_id ` set emitted)))"
proof (cases "acyclic (dependency_relation tasks)")
  case True
  from plan_returns [OF d True, of policy] obtain res where
    g: "generate_plan policy tasks = Inr res" and s: "set res = set tasks"
    and ok: "\<forall>k < length res. step_ok policy tasks (take k res) (res ! k)"
    by blast
  have "\<not> eligible tasks res t" for t
    using s by (simp add: eligible_def)
  then show ?thesis using g ok True by auto
next
  case False
  from plan_fails [OF d False, of policy] show ?thesis
    using False by auto
qed

subsection \<open>Evaluation on the example task lists\<close>

lemma chain_tasks_distinct: "distinct (map task_id chain_tasks)"
  by code_simp

lemma chain_tasks_acyclic: "acyclic (dependency_relation chain_tasks)"
  by code_simp

lemma chain_tasks_sorted:
  "TaskSorter_sort chain_tasks
     = Inr [plan_task ''A'' UNIT [], plan_task ''B'' UNIT [''A''],
            plan_task ''C'' UNIT [''B'', ''elsewhere'']]"
  by code_simp

lemma chain_tasks_plan:
  "generate_plan default_policy chain_tasks
     = Inr [plan_task ''A'' UNIT [], plan_task ''B'' UNIT [''A''],
            plan_task ''C'' UNIT [''B'', ''elsewhere'']]"
  by code_simp

lemma cycle_tasks_distinct: "distinct (map task_id cycle_tasks)"
  by code_simp

lemma cycle_tasks_cyclic: "\<not> acyclic (dependency_relation cycle_tasks)"
  by code_simp

lemma cycle_tasks_sorted: "TaskSorter_sort cycle_tasks = Inl (ValueError {''A'', ''B'', ''D''})"
  by code_simp

lemma cycle_tasks_plan:
  "generate_plan default_policy cycle_tasks = Inl (ValueError {''A'', ''B'', ''D''})"
  by code_simp

lemma bias_tasks_distinct: "distinct (map task_id bias_tasks)"
  by code_simp

lemma bias_tasks_acyclic: "acyclic (dependency_relation bias_tasks)"
  by code_simp

lemma bias_tasks_plan:
  "generate_plan default_policy bias_tasks = Inr [plan_task ''E'' E2E [], plan_task ''U'' UNIT []]"
  by code_simp

lemma bias_tasks_facts:
  "plan_task ''E'' E2E [] \<in> set bias_tasks" "plan_task ''U'' UNIT [] \<in> set bias_tasks"
  "in_set_deps bias_tasks (plan_task ''E'' E2E []) = []"
  "in_set_deps bias_tasks (plan_task ''U'' UNIT []) = []"
  "priority default_policy (plan_task ''E'' E2E []) = 5"
  "priority default_policy (plan_task ''U'' UNIT []) = 1"
  by code_simp+

lemma tie_tasks_distinct: "distinct (map task_id tie_tasks)"
  by code_simp

lemma tie_tasks_acyclic: "acyclic (dependency_relation tie_tasks)"
  by code_simp

lemma tie_tasks_plan:
  "generate_plan default_policy tie_tasks
     = Inr [plan_task ''R'' UNIT [], plan_task ''Y'' UNIT [], plan_task ''X'' UNIT [''R'']]"
  by code_simp

lemma tie_tasks_facts:
  "plan_task ''Y'' UNIT [] \<in> set tie_tasks"
  "plan_task ''X'' UNIT [''R'']
     \<in> set [plan_task ''R'' UNIT [], plan_task ''Y'' UNIT [], plan_task ''X'' UNIT [''R'']]"
  "plan_task ''Y'' UNIT [] \<noteq> plan_task ''X'' UNIT [''R'']"
  "priority default_policy (plan_task ''Y'' UNIT []) = priority default_policy (plan_task ''X'' UNIT [''R''])"
  "queue_before tie_tasks
     [plan_task ''R'' UNIT [], plan_task ''Y'' UNIT [], plan_task ''X'' UNIT [''R'']]
     (plan_task ''Y'' UNIT []) (plan_task ''X'' UNIT [''R''])"
  by code_simp+

subsection \<open>The claims about the sorter and the plan generator\<close>

text \<open>
  Claim C1: for a task list with unique ids whose dependency relation, restricted to ids of
  the input, is acyclic, \<open>TaskSorter.sort\<close> and \<open>generate_plan\<close> return a permutation of the
  input in which every dependency of a task that is an id of the input belongs to a task
  at a strictly smaller index.
\<close>

theorem topological_validity:
  assumes "distinct (map task_id tasks)" and "acyclic (dependency_relation tasks)"
  shows "(\<exists>res. TaskSorter_sort tasks = Inr res \<and> mset res = mset tasks
            \<and> (\<forall>k < length res. \<forall>d \<in> set (in_set_deps tasks (res ! k)).
                  d \<in> task_id ` set (take k res)))
       \<and> (\<exists>res. generate_plan policy tasks = Inr res \<and> mset res = mset tasks
            \<and> (\<forall>k < length res. \<forall>d \<in> set (in_set_deps tasks (res ! k)).
                  d \<in> task_id ` set (take k res)))"
proof -
  have "\<exists>res. generate_plan p tasks = Inr res \<and> mset res = mset tasks
            \<and> (\<forall>k < length res. \<forall>d \<in> set (in_set_deps tasks (res ! k)).
                  d \<in> task_id ` set (take k res))" for p
  proof -
    from plan_returns [OF assms, of p] obtain res where
      g: "generate_plan p tasks = Inr res" and s: "set res = set tasks" and dr: "distinct res"
      and ok: "\<forall>k < length res. step_ok p tasks (take k res) (res ! k)"
      by blast
    have "mset res = mset tasks"
      using s dr distinct_tasks [OF assms(1)] by (simp add: set_eq_iff_mset_eq_distinct)
    moreover have "\<forall>k < length res. \<forall>d \<in> set (in_set_deps tasks (res ! k)).
                  d \<in> task_id ` set (take k res)"
      using ok by (simp add: step_ok_def eligible_def deps_emitted_def list_all_iff)
    ultimately show ?thesis using g by blast
  qed
  from this [of flat_policy] this [of policy] show ?thesis
    by (simp only: TaskSorter_sort_flat [OF assms(1)])
qed

theorem topological_validity_witness:
  "distinct (map task_id chain_tasks) \<and> acyclic (dependency_relation chain_tasks)
   \<and> (\<exists>res. TaskSorter_sort chain_tasks = Inr res \<and> mset res = mset chain_tasks)
   \<and> TaskSorter_sort chain_tasks
       = Inr [plan_task ''A'' UNIT [], plan_task ''B'' UNIT [''A''],
              plan_task ''C'' UNIT [''B'', ''elsewhere'']]
   \<and> generate_plan default_policy chain_tasks
       = Inr [plan_task ''A'' UNIT [], plan_task ''B'' UNIT [''A''],
              plan_task ''C'' UNIT [''B'', ''elsewhere'']]"
proof -
  from topological_validity [OF chain_tasks_distinct chain_tasks_acyclic, of default_policy]
  have "\<exists>res. TaskSorter_sort chain_tasks = Inr res \<and> mset res = mset chain_tasks"
    by blast
  then show ?thesis
    using chain_tasks_distinct chain_tasks_acyclic chain_tasks_sorted chain_tasks_plan
    by (simp only: simp_thms)
qed

text \<open>
  Claim C2: for a task list with unique ids, if the dependency relation restricted to ids
  of the input is acyclic, both functions return a list as long as the input. Otherwise
  both raise \<open>ValueError\<close> and return no list; the set the error reports is the set of ids
  of the input minus the ids of the emitted tasks, where the emitted tasks are a sequence
  of tasks each eligible when emitted and after which no task is eligible. That set is the
  set of ids that lie on a dependency cycle or depend on one.
\<close>

theorem completeness_and_cycle_failure:
  assumes "distinct (map task_id tasks)"
  shows "(acyclic (dependency_relation tasks) \<longrightarrow>
            (\<exists>res. TaskSorter_sort tasks = Inr res \<and> length res = length tasks)
          \<and> (\<exists>res. generate_plan policy tasks = Inr res \<and> length res = length tasks))
       \<and> (\<not> acyclic (dependency_relation tasks) \<longrightarrow>
            (\<exists>emitted. (\<forall>k < length emitted. eligible tasks (take k emitted) (emitted ! k))
                \<and> (\<forall>t. \<not> eligible tasks emitted t)
                \<and> task_id ` set tasks - task_id ` set emitted = stuck_ids tasks
                \<and> TaskSorter_sort tasks
                    = Inl (ValueError (task_id ` set tasks - task_id ` set emitted)))
          \<and> (\<exists>emitted. (\<forall>k < length emitted. eligible tasks (take k emitted) (emitted ! k))
                \<and> (\<forall>t. \<not> eligible tasks emitted t)
                \<and> task_id ` set tasks - task_id ` set emitted = stuck_ids tasks
                \<and> generate_plan policy tasks
                    = Inl (ValueError (task_id ` set tasks - task_id ` set emitted))))"
proof (intro conjI impI)
  assume ac: "acyclic (dependency_relation tasks)"
  have "\<exists>res. generate_plan p tasks = Inr res \<and> length res = length tasks" for p
    using plan_returns [OF assms ac, of p] by blast
  from this [of flat_policy] this [of policy]
  show "\<exists>res. TaskSorter_sort tasks = Inr res \<and> length res = length tasks"
    and "\<exists>res. generate_plan policy tasks = Inr res \<and> length res = length tasks"
    by (simp_all only: TaskSorter_sort_flat [OF assms])
next
  assume cyc: "\<not> acyclic (dependency_relation tasks)"
  have fails: "\<exists>emitted. (\<forall>k < length emitted. eligible tasks (take k emitted) (emitted ! k))
                \<and> (\<forall>t. \<not> eligible tasks emitted t)
                \<and> task_id ` set tasks - task_id ` set emitted = stuck_ids tasks
                \<and> generate_plan p tasks
                    = Inl (ValueError (task_id ` set tasks - task_id ` set emitted))" for p
  proof -
    from plan_fails [OF assms cyc, of p] obtain emitted where
      ok: "\<forall>k < length emitted. step_ok p tasks (take k emitted) (emitted ! k)"
      and fin: "\<forall>t. \<not> eligible tasks emitted t"
      and g: "generate_plan p tasks = Inl (ValueError (task_id ` set tasks - task_id ` set emitted))"
      by blast
    have "\<forall>k < length emitted. eligible tasks (take k emitted) (emitted ! k)"
      using ok by (simp add: step_ok_def)
    moreover have "task_id ` set tasks - task_id ` set emitted = stuck_ids tasks"
      using assms ok fin by (rule unemitted_eq_stuck)
    ultimately show ?thesis using fin g by blast
  qed
  from fails [of flat_policy]
  show "\<exists>emitted. (\<forall>k < length emitted. eligible tasks (take k emitted) (emitted ! k))
                \<and> (\<forall>t. \<not> eligible tasks emitted t)
                \<and> task_id ` set tasks - task_id ` set emitted = stuck_ids tasks
                \<and> TaskSorter_sort tasks
                    = Inl (ValueError (task_id ` set tasks - task_id ` set emitted))"
    by (simp only: TaskSorter_sort_flat [OF assms])
  from fails [of policy]
  show "\<exists>emitted. (\<forall>k < length emitted. eligible tasks (take k emitted) (emitted ! k))
                \<and> (\<forall>t. \<not> eligible tasks emitted t)
                \<and> task_id ` set tasks - task_id ` set emitted = stuck_ids tasks
                \<and> generate_plan policy tasks
                    = Inl (ValueError (task_id ` set tasks - task_id ` set emitted))" .
qed

theorem completeness_and_cycle_failure_witness:
  "distinct (map task_id chain_tasks) \<and> acyclic (dependency_relation chain_tasks)
   \<and> (\<exists>res. TaskSorter_sort chain_tasks = Inr res \<and> length res = length chain_tasks)
   \<and> distinct (map task_id cycle_tasks) \<and> \<not> acyclic (dependency_relation cycle_tasks)
   \<and> TaskSorter_sort cycle_tasks = Inl (ValueError {''A'', ''B'', ''D''})
   \<and> generate_plan default_policy cycle_tasks = Inl (ValueError {''A'', ''B'', ''D''})
   \<and> stuck_ids cycle_tasks = {''A'', ''B'', ''D''}"
proof -
  note chain = completeness_and_cycle_failure [OF chain_tasks_distinct, of default_policy]
  from chain [THEN conjunct1] chain_tasks_acyclic
  have "(\<exists>res. TaskSorter_sort chain_tasks = Inr res \<and> length res = length chain_tasks)
      \<and> (\<exists>res. generate_plan default_policy chain_tasks = Inr res \<and> length res = length chain_tasks)"
    by (rule mp)
  then have a: "\<exists>res. TaskSorter_sort chain_tasks = Inr res \<and> length res = length chain_tasks"
    by (rule conjunct1)
  note cycle = completeness_and_cycle_failure [OF cycle_tasks_distinct, of default_policy]
  from cycle [THEN conjunct2] cycle_tasks_cyclic
  have "(\<exists>emitted. (\<forall>k < length emitted. eligible cycle_tasks (take k emitted) (emitted ! k))
                \<and> (\<forall>t. \<not> eligible cycle_tasks emitted t)
                \<and> task_id ` set cycle_tasks - task_id ` set emitted = stuck_ids cycle_tasks
                \<and> TaskSorter_sort cycle_tasks
                    = Inl (ValueError (task_id ` set cycle_tasks - task_id ` set emitted)))
          \<and> (\<exists>emitted. (\<forall>k < length emitted. eligible cycle_tasks (take k emitted) (emitted ! k))
                \<and> (\<forall>t. \<not> eligible cycle_tasks emitted t)
                \<and> task_id ` set cycle_tasks - task_id ` set emitted = stuck_ids cycle_tasks
                \<and> generate_plan default_policy cycle_tasks
                    = Inl (ValueError (task_id ` set cycle_tasks - task_id ` set emitted)))"
    by (rule mp)
  then have "\<exists>emitted. (\<forall>k < length emitted. eligible cycle_tasks (take k emitted) (emitted ! k))
                \<and> (\<forall>t. \<not> eligible cycle_tasks emitted t)
                \<and> task_id ` set cycle_tasks - task_id ` set emitted = stuck_ids cycle_tasks
                \<and> TaskSorter_sort cycle_tasks
                    = Inl (ValueError (task_id ` set cycle_tasks - task_id ` set emitted))"
    by (rule conjunct1)
  then obtain emitted where
    e: "(\<forall>k < length emitted. eligible cycle_tasks (take k emitted) (emitted ! k))
                \<and> (\<forall>t. \<not> eligible cycle_tasks emitted t)
                \<and> task_id ` set cycle_tasks - task_id ` set emitted = stuck_ids cycle_tasks
                \<and> TaskSorter_sort cycle_tasks
                    = Inl (ValueError (task_id ` set cycle_tasks - task_id ` set emitted))"
    ..
  note s = e [THEN conjunct2, THEN conjunct2, THEN conjunct1]
  note r = e [THEN conjunct2, THEN conjunct2, THEN conjunct2]
  have "Inl (ValueError (stuck_ids cycle_tasks)) = TaskSorter_sort cycle_tasks"
    by (simp only: r s)
  then have b: "stuck_ids cycle_tasks = {''A'', ''B'', ''D''}"
    by (simp only: cycle_tasks_sorted sum.inject error.inject)
  show ?thesis
    using a b chain_tasks_distinct chain_tasks_acyclic cycle_tasks_distinct cycle_tasks_cyclic
      cycle_tasks_sorted cycle_tasks_plan
    by (simp only: simp_thms)
qed

text \<open>
  Claim C5: for every task list with unique ids and every priority policy, the task that
  \<open>generate_plan\<close> emits at each step is eligible after the tasks emitted before it and
  has maximal priority among all tasks eligible then. Hence of two tasks eligible at the
  same time the one of strictly higher priority is emitted first; in particular of two
  tasks without in-set dependencies. The emitted list is the plan returned when the
  in-set dependencies are acyclic.
\<close>

theorem priority_bias:
  assumes "distinct (map task_id tasks)"
  shows "\<exists>emitted.
           generate_plan policy tasks
             = (if acyclic (dependency_relation tasks) then Inr emitted
                else Inl (ValueError (task_id ` set tasks - task_id ` set emitted)))
          \<and> (\<forall>k < length emitted. eligible tasks (take k emitted) (emitted ! k)
                \<and> (\<forall>u. eligible tasks (take k emitted) u
                       \<longrightarrow> priority policy u \<le> priority policy (emitted ! k)))
          \<and> (\<forall>a b k. eligible tasks (take k emitted) a \<and> eligible tasks (take k emitted) b
                \<and> priority policy b < priority policy a \<longrightarrow> precedes emitted a b)
          \<and> (\<forall>a b. a \<in> set tasks \<and> b \<in> set tasks
                \<and> in_set_deps tasks a = [] \<and> in_set_deps tasks b = []
                \<and> priority policy b < priority policy a \<longrightarrow> precedes emitted a b)"
proof -
  from plan_outcome [OF assms, of policy] obtain plan where
    ok: "\<forall>k < length plan. step_ok policy tasks (take k plan) (plan ! k)"
    and fin: "\<forall>t. \<not> eligible tasks plan t"
    and g: "generate_plan policy tasks
             = (if acyclic (dependency_relation tasks) then Inr plan
                else Inl (ValueError (task_id ` set tasks - task_id ` set plan)))"
    by blast
  have 1: "\<forall>k < length plan. eligible tasks (take k plan) (plan ! k)
                \<and> (\<forall>u. eligible tasks (take k plan) u
                       \<longrightarrow> priority policy u \<le> priority policy (plan ! k))"
    using ok by (simp add: step_ok_def)
  have 2: "\<forall>a b k. eligible tasks (take k plan) a \<and> eligible tasks (take k plan) b
                \<and> priority policy b < priority policy a \<longrightarrow> precedes plan a b"
    using higher_first [OF assms ok fin] by blast
  have 3: "\<forall>a b. a \<in> set tasks \<and> b \<in> set tasks
                \<and> in_set_deps tasks a = [] \<and> in_set_deps tasks b = []
                \<and> priority policy b < priority policy a \<longrightarrow> precedes plan a b"
  proof (intro allI impI)
    fix a b
    assume h: "a \<in> set tasks \<and> b \<in> set tasks
                \<and> in_set_deps tasks a = [] \<and> in_set_deps tasks b = []
                \<and> priority policy b < priority policy a"
    then have ea: "eligible tasks (take 0 plan) a" and eb: "eligible tasks (take 0 plan) b"
      by (simp_all add: eligible_def deps_emitted_def)
    show "precedes plan a b"
      using higher_first [OF assms ok fin ea eb] h by simp
  qed
  from g 1 2 3 show ?thesis by blast
qed

theorem priority_bias_witness:
  "distinct (map task_id bias_tasks) \<and> acyclic (dependency_relation bias_tasks)
   \<and> plan_task ''E'' E2E [] \<in> set bias_tasks \<and> plan_task ''U'' UNIT [] \<in> set bias_tasks
   \<and> in_set_deps bias_tasks (plan_task ''E'' E2E []) = []
   \<and> in_set_deps bias_tasks (plan_task ''U'' UNIT []) = []
   \<and> priority default_policy (plan_task ''E'' E2E []) = 5
   \<and> priority default_policy (plan_task ''U'' UNIT []) = 1
   \<and> generate_plan default_policy bias_tasks = Inr [plan_task ''E'' E2E [], plan_task ''U'' UNIT []]
   \<and> precedes [plan_task ''E'' E2E [], plan_task ''U'' UNIT []]
        (plan_task ''E'' E2E []) (plan_task ''U'' UNIT [])"
proof -
  let ?E = "plan_task ''E'' E2E []" and ?U = "plan_task ''U'' UNIT []"
  from priority_bias [OF bias_tasks_distinct, of default_policy]
  obtain plan where
    p: "generate_plan default_policy bias_tasks
             = (if acyclic (dependency_relation bias_tasks) then Inr plan
                else Inl (ValueError (task_id ` set bias_tasks - task_id ` set plan)))
          \<and> (\<forall>k < length plan. eligible bias_tasks (take k plan) (plan ! k)
                \<and> (\<forall>u. eligible bias_tasks (take k plan) u
                       \<longrightarrow> priority default_policy u \<le> priority default_policy (plan ! k)))
          \<and> (\<forall>a b k. eligible bias_tasks (take k plan) a \<and> eligible bias_tasks (take k plan) b
                \<and> priority default_policy b < priority default_policy a \<longrightarrow> precedes plan a b)
          \<and> (\<forall>a b. a \<in> set bias_tasks \<and> b \<in> set bias_tasks
                \<and> in_set_deps bias_tasks a = [] \<and> in_set_deps bias_tasks b = []
                \<and> priority default_policy b < priority default_policy a \<longrightarrow> precedes plan a b)"
    ..
  have plan: "plan = [?E, ?U]"
    using p [THEN conjunct1] by (simp only: bias_tasks_acyclic if_True bias_tasks_plan sum.inject)
  note roots = p [THEN conjunct2, THEN conjunct2, THEN conjunct2, THEN spec, THEN spec, of ?E ?U]
  have "priority default_policy ?U < priority default_policy ?E"
    by (simp only: bias_tasks_facts)
  with roots bias_tasks_facts(1-4) have "precedes plan ?E ?U"
    by (simp only: simp_thms)
  then have "precedes [?E, ?U] ?E ?U"
    by (simp only: plan)
  then show ?thesis
    using bias_tasks_distinct bias_tasks_acyclic bias_tasks_facts bias_tasks_plan
    by (simp only: simp_thms)
qed

text \<open>
  Claim C6, as stated, fails: after \<open>R\<close> is emitted, \<open>X\<close> (which waited for \<open>R\<close>) and \<open>Y\<close>
  are both eligible and tie on priority; \<open>X\<close> stands before \<open>Y\<close> in the input, but \<open>Y\<close>,
  which entered the ready queue first, is emitted first.
\<close>

theorem tie_break_counterexample:
  "generate_plan default_policy tie_tasks
     = Inr [plan_task ''R'' UNIT [], plan_task ''Y'' UNIT [], plan_task ''X'' UNIT [''R'']]
   \<and> eligible tie_tasks [plan_task ''R'' UNIT []] (plan_task ''X'' UNIT [''R''])
   \<and> eligible tie_tasks [plan_task ''R'' UNIT []] (plan_task ''Y'' UNIT [])
   \<and> priority default_policy (plan_task ''X'' UNIT [''R''])
       = priority default_policy (plan_task ''Y'' UNIT [])
   \<and> precedes tie_tasks (plan_task ''X'' UNIT [''R'']) (plan_task ''Y'' UNIT [])
   \<and> \<not> precedes [plan_task ''R'' UNIT [], plan_task ''Y'' UNIT [], plan_task ''X'' UNIT [''R'']]
          (plan_task ''X'' UNIT [''R'']) (plan_task ''Y'' UNIT [])"
  by code_simp

text \<open>
  Claim C6, amended: tasks that tie on priority are emitted in the order in which they
  became eligible (the order in which they entered the ready queue); tasks that became
  eligible at the same time, at the start or by the emission of the same task, are emitted
  in their relative order in the input. This holds for any two tasks of equal priority of
  which the second is emitted at all, for every task list with unique ids.
\<close>

theorem tie_break_queue_order:
  assumes "distinct (map task_id tasks)"
  shows "\<exists>emitted.
           generate_plan policy tasks
             = (if acyclic (dependency_relation tasks) then Inr emitted
                else Inl (ValueError (task_id ` set tasks - task_id ` set emitted)))
          \<and> (\<forall>a b. a \<in> set tasks \<and> b \<in> set emitted \<and> a \<noteq> b
                \<and> priority policy a = priority policy b \<and> queue_before tasks emitted a b
                \<longrightarrow> precedes emitted a b)"
proof -
  from plan_outcome [OF assms, of policy] obtain plan where
    ok: "\<forall>k < length plan. step_ok policy tasks (take k plan) (plan ! k)"
    and fin: "\<forall>t. \<not> eligible tasks plan t"
    and g: "generate_plan policy tasks
             = (if acyclic (dependency_relation tasks) then Inr plan
                else Inl (ValueError (task_id ` set tasks - task_id ` set plan)))"
    by blast
  have "\<forall>a b. a \<in> set tasks \<and> b \<in> set plan \<and> a \<noteq> b
                \<and> priority policy a = priority policy b \<and> queue_before tasks plan a b
                \<longrightarrow> precedes plan a b"
    using ties_queue_order [OF assms ok fin] by blast
  with g show ?thesis by blast
qed

theorem tie_break_queue_order_witness:
  "distinct (map task_id tie_tasks) \<and> acyclic (dependency_relation tie_tasks)
   \<and> plan_task ''Y'' UNIT [] \<in> set tie_tasks
   \<and> plan_task ''X'' UNIT [''R'']
       \<in> set [plan_task ''R'' UNIT [], plan_task ''Y'' UNIT [], plan_task ''X'' UNIT [''R'']]
   \<and> plan_task ''Y'' UNIT [] \<noteq> plan_task ''X'' UNIT [''R'']
   \<and> priority default_policy (plan_task ''Y'' UNIT [])
       = priority default_policy (plan_task ''X'' UNIT [''R''])
   \<and> queue_before tie_tasks
        [plan_task ''R'' UNIT [], plan_task ''Y'' UNIT [], plan_task ''X'' UNIT [''R'']]
        (plan_task ''Y'' UNIT []) (plan_task ''X'' UNIT [''R''])
   \<and> generate_plan default_policy tie_tasks
       = Inr [plan_task ''R'' UNIT [], plan_task ''Y'' UNIT [], plan_task ''X'' UNIT [''R'']]
   \<and> precedes [plan_task ''R'' UNIT [], plan_task ''Y'' UNIT [], plan_task ''X'' UNIT [''R'']]
        (plan_task ''Y'' UNIT []) (plan_task ''X'' UNIT [''R''])"
proof -
  let ?R = "plan_task ''R'' UNIT []" and ?Y = "plan_task ''Y'' UNIT []"
    and ?X = "plan_task ''X'' UNIT [''R'']"
  from tie_break_queue_order [OF tie_tasks_distinct, of default_policy]
  obtain plan where
    p: "generate_plan default_policy tie_tasks
             = (if acyclic (dependency_relation tie_tasks) then Inr plan
                else Inl (ValueError (task_id ` set tie_tasks - task_id ` set plan)))
          \<and> (\<forall>a b. a \<in> set tie_tasks \<and> b \<in> set plan \<and> a \<noteq> b
                \<and> priority default_policy a = priority default_policy b
                \<and> queue_before tie_tasks plan a b
                \<longrightarrow> precedes plan a b)"
    ..
  have plan: "plan = [?R, ?Y, ?X]"
    using p [THEN conjunct1] by (simp only: tie_tasks_acyclic if_True tie_tasks_plan sum.inject)
  note order = p [THEN conjunct2, THEN spec, THEN spec, of ?Y ?X, unfolded plan]
  from order tie_tasks_facts have "precedes [?R, ?Y, ?X] ?Y ?X"
    by (simp only: simp_thms)
  then show ?thesis
    using tie_tasks_distinct tie_tasks_acyclic tie_tasks_facts tie_tasks_plan
    by (simp only: simp_thms)
qed

end
